theory Spec2Isabelle
  imports Main "HOL-Library.Word"
begin

unbundle bit_operations_syntax

section \<open>The data model of \<^verbatim>\<open>SwitchMatrixScanner.h\<close>\<close>

text \<open>
  The enum \<^verbatim>\<open>SwitchState\<close> and the struct \<^verbatim>\<open>SwitchDef\<close>: a 16-bit scancode, the
  latched state and the packed one-byte sample buffer.
\<close>

datatype SwitchState = UNKNOWN | OPEN | CLOSED

record SwitchDef =
  scancode :: "16 word"
  state :: SwitchState
  sample_buffer :: "8 word"

text \<open>
  The Arduino environment. A handler is a bare function pointer, modelled by an abstract
  address (\<open>None\<close> is \<^verbatim>\<open>nullptr\<close>). \<^verbatim>\<open>digitalRead\<close> yields one of two levels; the scanner
  only compares the level with \<^verbatim>\<open>LOW\<close>. Every call the scanner makes into its environment
  is an \<open>effect\<close>; the methods below return the effects they perform, in order. A handler
  call passes the whole buffer array by reference together with the count.
\<close>

type_synonym SwitchHandler = nat

datatype pin_mode = INPUT | INPUT_PULLUP | OUTPUT

datatype pin_level = LOW | HIGH

datatype effect =
    PinMode "8 word" pin_mode
  | DigitalWrite "8 word" pin_level
  | DigitalRead "8 word"
  | SwitchClosedCall SwitchHandler "16 word list" nat
  | SwitchOpenCall SwitchHandler "16 word list" nat

text \<open>
  The class. The template parameters are kept in the object as the class's public
  constants \<^verbatim>\<open>row_count\<close>, \<^verbatim>\<open>col_count\<close> and \<^verbatim>\<open>event_buffer_size\<close>; \<^verbatim>\<open>size_t\<close> values are
  natural numbers (\<^verbatim>\<open>size_t\<close> is taken wide enough for \<^verbatim>\<open>ROW_COUNT * COL_COUNT\<close>, as the
  class's own \<^verbatim>\<open>static_assert\<close> presumes). Arrays are lists of the array's length.
\<close>

record Scanner =
  row_count :: nat
  col_count :: nat
  event_buffer_size :: nat
  m_switch_map :: "SwitchDef list list"
  m_row_pins :: "8 word list"
  m_col_pins :: "8 word list"
  m_switchhandler_closed :: "SwitchHandler option"
  m_switchhandler_open :: "SwitchHandler option"
  m_column_input_type :: pin_mode
  m_enable_software_debounce :: bool
  m_scancode_event_buffer_opened :: "16 word list"
  m_scancode_event_buffer_opened_len :: nat
  m_scancode_event_buffer_closed :: "16 word list"
  m_scancode_event_buffer_closed_len :: nat

subsection \<open>Debounce parameters\<close>

text \<open>
  The constants are \<^verbatim>\<open>uint8_t\<close>; the masks are computed in \<^verbatim>\<open>int\<close> (integer promotion) and
  converted back to a byte.
\<close>

definition DebounceSettleCount :: "8 word" where
  "DebounceSettleCount = 4"

definition DebounceSampleCount :: "8 word" where
  "DebounceSampleCount = 3"

definition DebounceSettleBits :: nat where
  "DebounceSettleBits = 3"

definition DebounceSampleBits :: nat where
  "DebounceSampleBits = 5"

definition DebounceSettleShift :: nat where
  "DebounceSettleShift = DebounceSampleBits"

definition DebounceSettleMask :: "8 word" where
  "DebounceSettleMask =
     word_of_int (push_bit DebounceSettleShift (push_bit DebounceSettleBits (1::int) - 1))"

definition DebounceSampleMask :: "8 word" where
  "DebounceSampleMask = word_of_int (push_bit DebounceSampleBits (1::int) - 1)"

definition ScanCodeMax :: nat where
  "ScanCodeMax = 0xFFFF"

subsection \<open>Helpers\<close>

text \<open>
  \<^verbatim>\<open>is_closed\<close>, \<^verbatim>\<open>is_open\<close> and \<^verbatim>\<open>reset_sample_count\<close>. The operands of \<^verbatim>\<open>&\<close> are promoted
  to \<^verbatim>\<open>int\<close>; \<^verbatim>\<open>reset_sample_count\<close> converts its result back to \<^verbatim>\<open>uint8_t\<close>.
\<close>

definition is_closed :: "8 word \<Rightarrow> 8 word \<Rightarrow> bool" where
  "is_closed sample_mask sample_buf \<longleftrightarrow>
     (uint sample_mask AND uint sample_buf) = uint sample_mask"

definition is_open :: "8 word \<Rightarrow> 8 word \<Rightarrow> bool" where
  "is_open sample_mask sample_buf \<longleftrightarrow> (uint sample_mask AND uint sample_buf) = 0"

definition reset_sample_count :: "SwitchDef \<Rightarrow> 8 word" where
  "reset_sample_count swtch =
     word_of_int (uint DebounceSampleMask AND uint (sample_buffer swtch))"

text \<open>\<^verbatim>\<open>handleSoftwareDebounce\<close>: the reference parameter is returned updated.\<close>

definition handleSoftwareDebounce :: "SwitchDef \<Rightarrow> bool \<Rightarrow> SwitchDef" where
  "handleSoftwareDebounce swtch is_switch_pressed =
     (let settle_count :: 8 word =
            word_of_int (drop_bit DebounceSettleShift
                           (uint (sample_buffer swtch) AND uint DebounceSettleMask))
      in if settle_count < DebounceSettleCount
         then swtch\<lparr>sample_buffer :=
                word_of_int (push_bit DebounceSettleShift (uint settle_count + 1)
                             OR (uint DebounceSampleMask AND uint (sample_buffer swtch)))\<rparr>
         else swtch\<lparr>sample_buffer :=
                word_of_int (push_bit DebounceSettleShift (uint settle_count)
                             OR (uint DebounceSampleMask AND push_bit 1 (uint (sample_buffer swtch)))
                             OR (if is_switch_pressed then 1 else 0))\<rparr>)"

text \<open>
  \<^verbatim>\<open>onSwitchClosed\<close> and \<^verbatim>\<open>onSwitchOpen\<close>: the registered handler is called, a null handler
  is skipped.
\<close>

definition onSwitchClosed :: "Scanner \<Rightarrow> 16 word list \<Rightarrow> nat \<Rightarrow> effect list" where
  "onSwitchClosed s scancodes scancodes_len =
     (case m_switchhandler_closed s of
        None \<Rightarrow> []
      | Some switchhandler_closed \<Rightarrow> [SwitchClosedCall switchhandler_closed scancodes scancodes_len])"

definition onSwitchOpen :: "Scanner \<Rightarrow> 16 word list \<Rightarrow> nat \<Rightarrow> effect list" where
  "onSwitchOpen s scancodes scancodes_len =
     (case m_switchhandler_open s of
        None \<Rightarrow> []
      | Some switchhandler_open \<Rightarrow> [SwitchOpenCall switchhandler_open scancodes scancodes_len])"

definition flush_opened_events :: "Scanner \<Rightarrow> effect list \<times> Scanner" where
  "flush_opened_events s =
     (if m_scancode_event_buffer_opened_len s > 0
      then (onSwitchOpen s (m_scancode_event_buffer_opened s) (m_scancode_event_buffer_opened_len s),
            s\<lparr>m_scancode_event_buffer_opened_len := 0\<rparr>)
      else ([], s))"

definition flush_closed_events :: "Scanner \<Rightarrow> effect list \<times> Scanner" where
  "flush_closed_events s =
     (if m_scancode_event_buffer_closed_len s > 0
      then (onSwitchClosed s (m_scancode_event_buffer_closed s) (m_scancode_event_buffer_closed_len s),
            s\<lparr>m_scancode_event_buffer_closed_len := 0\<rparr>)
      else ([], s))"

text \<open>
  \<^verbatim>\<open>handleSwitchState\<close>. The switch is passed by reference and returned updated, next to
  the \<^verbatim>\<open>pending_event\<close> flag and the scanner whose event buffers it writes. The write
  \<^verbatim>\<open>buffer[len++] = scancode\<close> is defined only below the array's length
  \<^verbatim>\<open>EVENT_BUFFER_SIZE\<close>; a write beyond it has no defined result, which is \<open>None\<close>.
\<close>

definition handleSwitchState :: "SwitchDef \<Rightarrow> Scanner \<Rightarrow> (bool \<times> SwitchDef \<times> Scanner) option" where
  "handleSwitchState swtch s =
     (if is_closed DebounceSampleMask (sample_buffer swtch) \<and> state swtch \<noteq> CLOSED
      then
        (if m_scancode_event_buffer_closed_len s < event_buffer_size s
         then Some (True,
                swtch\<lparr>state := CLOSED, sample_buffer := reset_sample_count swtch\<rparr>,
                s\<lparr>m_scancode_event_buffer_closed :=
                     (m_scancode_event_buffer_closed s)
                       [m_scancode_event_buffer_closed_len s := scancode swtch],
                   m_scancode_event_buffer_closed_len :=
                     m_scancode_event_buffer_closed_len s + 1\<rparr>)
         else None)
      else if is_open DebounceSampleMask (sample_buffer swtch) \<and> state swtch \<noteq> OPEN
      then
        (let oldState = state swtch
         in if oldState = UNKNOWN
            then
              (if m_scancode_event_buffer_opened_len s < event_buffer_size s
               then Some (True,
                      swtch\<lparr>state := OPEN, sample_buffer := reset_sample_count swtch\<rparr>,
                      s\<lparr>m_scancode_event_buffer_opened :=
                           (m_scancode_event_buffer_opened s)
                             [m_scancode_event_buffer_opened_len s := scancode swtch],
                         m_scancode_event_buffer_opened_len :=
                           m_scancode_event_buffer_opened_len s + 1\<rparr>)
               else None)
            else Some (False,
                   swtch\<lparr>state := OPEN, sample_buffer := reset_sample_count swtch\<rparr>, s))
      else Some (False, swtch, s))"

subsection \<open>Loops\<close>

text \<open>
  A \<^verbatim>\<open>for\<close> loop over an index list whose body may have no defined result and performs
  effects: the effects are concatenated in order, the state is threaded through.
\<close>

primrec for_loop ::
  "nat list \<Rightarrow> (nat \<Rightarrow> 's \<Rightarrow> (effect list \<times> 's) option) \<Rightarrow> 's \<Rightarrow> (effect list \<times> 's) option"
where
  "for_loop [] body s = Some ([], s)"
| "for_loop (i # is) body s =
     (case body i s of
        None \<Rightarrow> None
      | Some (es, s') \<Rightarrow>
          (case for_loop is body s' of
             None \<Rightarrow> None
           | Some (es', s'') \<Rightarrow> Some (es @ es', s'')))"

subsection \<open>Construction and setup\<close>

text \<open>
  The constructor. A template instance that violates a \<^verbatim>\<open>static_assert\<close>, or pin arrays
  whose lengths are not \<^verbatim>\<open>ROW_COUNT\<close> and \<^verbatim>\<open>COL_COUNT\<close>, do not compile: \<open>None\<close>. The
  members are value-initialised, then the nested loops number the switches with the
  16-bit counter \<^verbatim>\<open>scancode++\<close>.
\<close>

definition init_switch ::
  "nat \<Rightarrow> nat \<Rightarrow> SwitchDef list list \<times> 16 word \<Rightarrow> SwitchDef list list \<times> 16 word" where
  "init_switch r c = (\<lambda>(switch_map, scancode_counter).
     (switch_map[r := (switch_map ! r)
        [c := \<lparr>scancode = scancode_counter, state = UNKNOWN, sample_buffer = 0\<rparr>]],
      scancode_counter + 1))"

definition init_switch_map :: "nat \<Rightarrow> nat \<Rightarrow> SwitchDef list list" where
  "init_switch_map ROW_COUNT COL_COUNT =
     fst (fold (\<lambda>r. fold (\<lambda>c. init_switch r c) [0..<COL_COUNT]) [0..<ROW_COUNT]
            (replicate ROW_COUNT
               (replicate COL_COUNT \<lparr>scancode = 0, state = UNKNOWN, sample_buffer = 0\<rparr>), 1))"

definition SwitchMatrixScanner ::
  "nat \<Rightarrow> nat \<Rightarrow> nat \<Rightarrow> 8 word list \<Rightarrow> 8 word list \<Rightarrow> bool \<Rightarrow> bool \<Rightarrow> Scanner option" where
  "SwitchMatrixScanner ROW_COUNT COL_COUNT EVENT_BUFFER_SIZE row_pins column_pins
       enable_pullups enable_software_debounce =
     (if ROW_COUNT * COL_COUNT < ScanCodeMax - 1 \<and> ROW_COUNT > 0 \<and> COL_COUNT > 0
         \<and> EVENT_BUFFER_SIZE > 0
         \<and> length row_pins = ROW_COUNT \<and> length column_pins = COL_COUNT
      then Some \<lparr>
        row_count = ROW_COUNT,
        col_count = COL_COUNT,
        event_buffer_size = EVENT_BUFFER_SIZE,
        m_switch_map = init_switch_map ROW_COUNT COL_COUNT,
        m_row_pins = row_pins,
        m_col_pins = column_pins,
        m_switchhandler_closed = None,
        m_switchhandler_open = None,
        m_column_input_type = (if enable_pullups then INPUT_PULLUP else INPUT),
        m_enable_software_debounce = enable_software_debounce,
        m_scancode_event_buffer_opened = replicate EVENT_BUFFER_SIZE 0,
        m_scancode_event_buffer_opened_len = 0,
        m_scancode_event_buffer_closed = replicate EVENT_BUFFER_SIZE 0,
        m_scancode_event_buffer_closed_len = 0 \<rparr>
      else None)"

text \<open>
  The method \<^verbatim>\<open>setup\<close> (the name is taken in Isabelle): store the handlers, then configure
  every row pin and every column pin.
\<close>

definition setup_scanner ::
  "SwitchHandler option \<Rightarrow> SwitchHandler option \<Rightarrow> Scanner \<Rightarrow> effect list \<times> Scanner" where
  "setup_scanner switchclosed_handler switchopen_handler s =
     (map (\<lambda>r. PinMode (m_row_pins s ! r) INPUT) [0..<row_count s]
        @ map (\<lambda>c. PinMode (m_col_pins s ! c) (m_column_input_type s)) [0..<col_count s],
      s\<lparr>m_switchhandler_closed := switchclosed_handler,
        m_switchhandler_open := switchopen_handler\<rparr>)"

subsection \<open>The scan pass\<close>

text \<open>
  The body of the inner loop of \<^verbatim>\<open>scan\<close> for the switch at row \<open>r\<close>, column \<open>c\<close>. The
  environment is the level \<open>digitalRead r c\<close> that the column pin shows while row \<open>r\<close> is
  driven in this pass.
\<close>

definition scan_switch ::
  "(nat \<Rightarrow> nat \<Rightarrow> pin_level) \<Rightarrow> nat \<Rightarrow> nat \<Rightarrow> Scanner \<Rightarrow> (effect list \<times> Scanner) option" where
  "scan_switch digitalRead r c s =
     (let swtch = m_switch_map s ! r ! c;
          col_pin = m_col_pins s ! c;
          val = digitalRead r c;
          is_switch_pressed = (val = LOW);
          swtch = (if m_enable_software_debounce s
                   then handleSoftwareDebounce swtch is_switch_pressed
                   else swtch\<lparr>sample_buffer := (if is_switch_pressed then 0xFF else 0x00)\<rparr>)
      in case handleSwitchState swtch s of
           None \<Rightarrow> None
         | Some (pending_event, swtch, s) \<Rightarrow>
             (let s = s\<lparr>m_switch_map := (m_switch_map s)[r := (m_switch_map s ! r)[c := swtch]]\<rparr>
              in if pending_event
                 then
                   (let (es1, s) =
                          (if m_scancode_event_buffer_closed_len s = event_buffer_size s
                           then flush_closed_events s else ([], s));
                        (es2, s) =
                          (if m_scancode_event_buffer_opened_len s = event_buffer_size s
                           then flush_opened_events s else ([], s))
                    in Some (DigitalRead col_pin # es1 @ es2, s))
                 else Some ([DigitalRead col_pin], s)))"

definition scan_row ::
  "(nat \<Rightarrow> nat \<Rightarrow> pin_level) \<Rightarrow> nat \<Rightarrow> Scanner \<Rightarrow> (effect list \<times> Scanner) option" where
  "scan_row digitalRead r s =
     (let rowpin = m_row_pins s ! r
      in case for_loop [0..<col_count s] (scan_switch digitalRead r) s of
           None \<Rightarrow> None
         | Some (es, s) \<Rightarrow>
             Some ([PinMode rowpin OUTPUT, DigitalWrite rowpin LOW] @ es @ [PinMode rowpin INPUT], s))"

definition scan :: "(nat \<Rightarrow> nat \<Rightarrow> pin_level) \<Rightarrow> Scanner \<Rightarrow> (effect list \<times> Scanner) option" where
  "scan digitalRead s =
     (case for_loop [0..<row_count s] (scan_row digitalRead) s of
        None \<Rightarrow> None
      | Some (es, s) \<Rightarrow>
          (let (es1, s) = flush_closed_events s;
               (es2, s) = flush_opened_events s
           in Some (es @ es1 @ es2, s)))"

subsection \<open>The state query\<close>

text \<open>
  \<^verbatim>\<open>isSwitchClosed\<close> is not a \<^verbatim>\<open>const\<close> method: it returns its answer, the effects it
  performs and the scanner it leaves. \<^verbatim>\<open>scanindex\<close>, \<^verbatim>\<open>row\<close> and \<^verbatim>\<open>col\<close> are \<^verbatim>\<open>uint16_t\<close>; the
  comparison, the division and the subtraction are done in \<^verbatim>\<open>size_t\<close>.
\<close>

definition isSwitchClosed :: "16 word \<Rightarrow> Scanner \<Rightarrow> bool \<times> effect list \<times> Scanner" where
  "isSwitchClosed scan_code s =
     (if scan_code = 0 then (False, [], s)
      else
        (let scanindex :: 16 word = scan_code - 1
         in if unat scanindex \<ge> row_count s * col_count s then (False, [], s)
            else
              (let row :: 16 word = of_nat (unat scanindex div col_count s);
                   col :: 16 word = of_nat (unat scanindex - unat row * col_count s)
               in (state (m_switch_map s ! unat row ! unat col) = CLOSED, [], s))))"

section \<open>Notions used to state and prove the properties\<close>

subsection \<open>One switch in one pass\<close>

text \<open>The switch at row \<open>r\<close>, column \<open>c\<close> of the grid.\<close>

definition cell :: "Scanner \<Rightarrow> nat \<Rightarrow> nat \<Rightarrow> SwitchDef" where
  "cell s r c = m_switch_map s ! r ! c"

text \<open>
  The loop body of \<^verbatim>\<open>scan\<close> treats a switch in two steps. \<open>sample_switch\<close> is the first:
  the debounce step, or the overwrite of the sample buffer when debounce is disabled.
  \<open>latch_switch\<close> is what \<^verbatim>\<open>handleSwitchState\<close> leaves in the switch, and \<open>closed_event\<close>
  and \<open>opened_event\<close> are what it appends to the closed and to the opened buffer (a list
  of no or one scancode), branch by branch; \<open>handleSwitchState_appends\<close> below proves that
  \<^verbatim>\<open>handleSwitchState\<close> does exactly this. \<open>scanned_switch\<close> is the switch after the pass.
\<close>

definition sample_switch :: "bool \<Rightarrow> pin_level \<Rightarrow> SwitchDef \<Rightarrow> SwitchDef" where
  "sample_switch debounce val swtch =
     (if debounce then handleSoftwareDebounce swtch (val = LOW)
      else swtch\<lparr>sample_buffer := (if val = LOW then 0xFF else 0x00)\<rparr>)"

definition latch_switch :: "SwitchDef \<Rightarrow> SwitchDef" where
  "latch_switch swtch =
     (if is_closed DebounceSampleMask (sample_buffer swtch) \<and> state swtch \<noteq> CLOSED
      then swtch\<lparr>state := CLOSED, sample_buffer := reset_sample_count swtch\<rparr>
      else if is_open DebounceSampleMask (sample_buffer swtch) \<and> state swtch \<noteq> OPEN
      then swtch\<lparr>state := OPEN, sample_buffer := reset_sample_count swtch\<rparr>
      else swtch)"

definition closed_event :: "SwitchDef \<Rightarrow> 16 word list" where
  "closed_event swtch =
     (if is_closed DebounceSampleMask (sample_buffer swtch) \<and> state swtch \<noteq> CLOSED
      then [scancode swtch] else [])"

definition opened_event :: "SwitchDef \<Rightarrow> 16 word list" where
  "opened_event swtch =
     (if \<not> (is_closed DebounceSampleMask (sample_buffer swtch) \<and> state swtch \<noteq> CLOSED)
         \<and> is_open DebounceSampleMask (sample_buffer swtch) \<and> state swtch = UNKNOWN
      then [scancode swtch] else [])"

definition scanned_switch :: "bool \<Rightarrow> pin_level \<Rightarrow> SwitchDef \<Rightarrow> SwitchDef" where
  "scanned_switch debounce val swtch = latch_switch (sample_switch debounce val swtch)"

text \<open>
  The two bit-fields of a sample buffer byte, read the way \<^verbatim>\<open>handleSoftwareDebounce\<close> and
  \<^verbatim>\<open>reset_sample_count\<close> read them: the settle counter in the three high bits, the sample
  window in the five low bits.
\<close>

definition settle_count_of :: "8 word \<Rightarrow> 8 word" where
  "settle_count_of b =
     word_of_int (drop_bit DebounceSettleShift (uint b AND uint DebounceSettleMask))"

definition sample_window :: "8 word \<Rightarrow> 8 word" where
  "sample_window b = word_of_int (uint DebounceSampleMask AND uint b)"

text \<open>The byte that \<^verbatim>\<open>handleSoftwareDebounce\<close> stores, as a function of the byte it reads.\<close>

definition debounce_byte :: "8 word \<Rightarrow> bool \<Rightarrow> 8 word" where
  "debounce_byte b is_switch_pressed =
     sample_buffer (handleSoftwareDebounce \<lparr>scancode = 0, state = UNKNOWN, sample_buffer = b\<rparr>
                      is_switch_pressed)"

text \<open>
  A switch \<open>k\<close> passes after a transition, debounce enabled: the settle counter stands at
  \<open>k\<close> and the sample window is uniform in the direction of the latched state.
\<close>

definition settling :: "nat \<Rightarrow> SwitchDef \<Rightarrow> bool" where
  "settling k swtch \<longleftrightarrow>
     settle_count_of (sample_buffer swtch) = of_nat k
     \<and> (state swtch = CLOSED \<and> sample_window (sample_buffer swtch) = DebounceSampleMask
        \<or> state swtch = OPEN \<and> sample_window (sample_buffer swtch) = 0)"

subsection \<open>The grid in one pass\<close>

text \<open>
  A row after its first \<open>c\<close> switches have been scanned and the grid after its first \<open>r\<close>
  rows have been scanned, with the scancodes appended on the way (\<open>ev\<close> is \<open>closed_event\<close>
  or \<open>opened_event\<close>), in scan order.
\<close>

definition scanned_row ::
  "bool \<Rightarrow> (nat \<Rightarrow> pin_level) \<Rightarrow> nat \<Rightarrow> SwitchDef list \<Rightarrow> SwitchDef list" where
  "scanned_row debounce vals c row =
     map (\<lambda>i. if i < c then scanned_switch debounce (vals i) (row ! i) else row ! i) [0..<length row]"

definition row_events ::
  "(SwitchDef \<Rightarrow> 16 word list) \<Rightarrow> bool \<Rightarrow> (nat \<Rightarrow> pin_level) \<Rightarrow> nat \<Rightarrow> SwitchDef list \<Rightarrow> 16 word list" where
  "row_events ev debounce vals c row =
     concat (map (\<lambda>i. ev (sample_switch debounce (vals i) (row ! i))) [0..<c])"

definition scanned_grid ::
  "bool \<Rightarrow> (nat \<Rightarrow> nat \<Rightarrow> pin_level) \<Rightarrow> nat \<Rightarrow> SwitchDef list list \<Rightarrow> SwitchDef list list" where
  "scanned_grid debounce vals r grid =
     map (\<lambda>i. if i < r then scanned_row debounce (vals i) (length (grid ! i)) (grid ! i) else grid ! i)
       [0..<length grid]"

definition grid_events ::
  "(SwitchDef \<Rightarrow> 16 word list) \<Rightarrow> bool \<Rightarrow> (nat \<Rightarrow> nat \<Rightarrow> pin_level) \<Rightarrow> nat
     \<Rightarrow> SwitchDef list list \<Rightarrow> 16 word list" where
  "grid_events ev debounce vals r grid =
     concat (map (\<lambda>i. row_events ev debounce (vals i) (length (grid ! i)) (grid ! i)) [0..<r])"

text \<open>
  The scancodes that a whole pass appends to the closed buffer and to the opened buffer.
  And the switches that a pass latches \<^verbatim>\<open>CLOSED\<close>, read off the grid before and after the
  pass.
\<close>

definition pass_closed_events :: "(nat \<Rightarrow> nat \<Rightarrow> pin_level) \<Rightarrow> Scanner \<Rightarrow> 16 word list" where
  "pass_closed_events digitalRead s =
     grid_events closed_event (m_enable_software_debounce s) digitalRead (row_count s)
       (m_switch_map s)"

definition pass_opened_events :: "(nat \<Rightarrow> nat \<Rightarrow> pin_level) \<Rightarrow> Scanner \<Rightarrow> 16 word list" where
  "pass_opened_events digitalRead s =
     grid_events opened_event (m_enable_software_debounce s) digitalRead (row_count s)
       (m_switch_map s)"

definition closed_transitions :: "Scanner \<Rightarrow> Scanner \<Rightarrow> 16 word list" where
  "closed_transitions s s' =
     map (\<lambda>(r, c). scancode (cell s r c))
       (filter (\<lambda>(r, c). state (cell s r c) \<noteq> CLOSED \<and> state (cell s' r c) = CLOSED)
          (List.product [0..<row_count s] [0..<col_count s]))"

subsection \<open>Event buffers and handler calls\<close>

text \<open>The scancodes waiting in a buffer: the array up to its count.\<close>

definition pending_closed :: "Scanner \<Rightarrow> 16 word list" where
  "pending_closed s = take (m_scancode_event_buffer_closed_len s) (m_scancode_event_buffer_closed s)"

definition pending_opened :: "Scanner \<Rightarrow> 16 word list" where
  "pending_opened s = take (m_scancode_event_buffer_opened_len s) (m_scancode_event_buffer_opened s)"

text \<open>
  The calls of the closed handler and of the open handler among some effects, in order:
  the handler, the count argument, and the scancodes the handler is given to read (the
  array up to the count).
\<close>

fun closed_deliveries :: "effect list \<Rightarrow> (SwitchHandler \<times> nat \<times> 16 word list) list" where
  "closed_deliveries [] = []"
| "closed_deliveries (SwitchClosedCall h scancodes scancodes_len # es) =
     (h, scancodes_len, take scancodes_len scancodes) # closed_deliveries es"
| "closed_deliveries (e # es) = closed_deliveries es"

fun opened_deliveries :: "effect list \<Rightarrow> (SwitchHandler \<times> nat \<times> 16 word list) list" where
  "opened_deliveries [] = []"
| "opened_deliveries (SwitchOpenCall h scancodes scancodes_len # es) =
     (h, scancodes_len, take scancodes_len scancodes) # opened_deliveries es"
| "opened_deliveries (e # es) = opened_deliveries es"

text \<open>What the flush at the end of a pass delivers: what is pending, if anything.\<close>

definition final_delivery ::
  "SwitchHandler option \<Rightarrow> 16 word list \<Rightarrow> (SwitchHandler \<times> nat \<times> 16 word list) list" where
  "final_delivery ho pend =
     (case ho of None \<Rightarrow> [] | Some h \<Rightarrow> if pend = [] then [] else [(h, length pend, pend)])"

text \<open>
  The bookkeeping of a stretch of a pass for one buffer of capacity \<open>N\<close> with handler
  \<open>ho\<close>: \<open>pend0\<close> was pending before, \<open>evs\<close> were appended, the calls \<open>ds\<close> were made by
  mid-pass flushes and \<open>pend1\<close> is pending after. Every mid-pass call passes a full
  buffer, and nothing is lost or repeated.
\<close>

definition flow ::
  "nat \<Rightarrow> SwitchHandler option \<Rightarrow> 16 word list \<Rightarrow> (SwitchHandler \<times> nat \<times> 16 word list) list
     \<Rightarrow> 16 word list \<Rightarrow> 16 word list \<Rightarrow> bool" where
  "flow N ho pend0 ds pend1 evs \<longleftrightarrow>
     (case ho of
        None \<Rightarrow> ds = []
      | Some h \<Rightarrow> (\<exists>ps. ds = map (\<lambda>p. (h, N, p)) ps \<and> (\<forall>p\<in>set ps. length p = N)
                    \<and> concat ps @ pend1 = pend0 @ evs))"

text \<open>The count argument of a handler call lies between 1 and the buffer capacity.\<close>

fun handler_count_ok :: "nat \<Rightarrow> effect \<Rightarrow> bool" where
  "handler_count_ok N (SwitchClosedCall h scancodes scancodes_len) \<longleftrightarrow>
     1 \<le> scancodes_len \<and> scancodes_len \<le> N"
| "handler_count_ok N (SwitchOpenCall h scancodes scancodes_len) \<longleftrightarrow>
     1 \<le> scancodes_len \<and> scancodes_len \<le> N"
| "handler_count_ok N e \<longleftrightarrow> True"

subsection \<open>Invariants\<close>

text \<open>
  What a pass never changes; the array lengths that the C++ types fix; the buffers
  inside a pass (room for one more scancode) and between two calls (empty).
\<close>

definition config where
  "config s = (row_count s, col_count s, event_buffer_size s, m_row_pins s, m_col_pins s,
     m_switchhandler_closed s, m_switchhandler_open s, m_column_input_type s,
     m_enable_software_debounce s)"

definition dims where
  "dims s = (row_count s, col_count s, event_buffer_size s, m_enable_software_debounce s)"

definition grid_ok :: "Scanner \<Rightarrow> bool" where
  "grid_ok s \<longleftrightarrow> length (m_switch_map s) = row_count s
     \<and> (\<forall>row\<in>set (m_switch_map s). length row = col_count s)"

definition bufs_ok :: "Scanner \<Rightarrow> bool" where
  "bufs_ok s \<longleftrightarrow> 0 < event_buffer_size s
     \<and> length (m_scancode_event_buffer_closed s) = event_buffer_size s
     \<and> length (m_scancode_event_buffer_opened s) = event_buffer_size s
     \<and> m_scancode_event_buffer_closed_len s < event_buffer_size s
     \<and> m_scancode_event_buffer_opened_len s < event_buffer_size s"

definition bufs_idle :: "Scanner \<Rightarrow> bool" where
  "bufs_idle s \<longleftrightarrow> 0 < event_buffer_size s
     \<and> length (m_scancode_event_buffer_closed s) = event_buffer_size s
     \<and> length (m_scancode_event_buffer_opened s) = event_buffer_size s
     \<and> m_scancode_event_buffer_closed_len s = 0
     \<and> m_scancode_event_buffer_opened_len s = 0"

text \<open>The invariant of the scanner between two calls of its methods.\<close>

definition scanner_inv :: "Scanner \<Rightarrow> bool" where
  "scanner_inv s \<longleftrightarrow> bufs_idle s \<and> grid_ok s
     \<and> 0 < row_count s \<and> 0 < col_count s \<and> row_count s * col_count s < ScanCodeMax - 1
     \<and> (\<forall>r<row_count s. \<forall>c<col_count s.
           scancode (cell s r c) = of_nat (r * col_count s + c + 1))"

text \<open>
  The constructor's loops: the switch that gets the \<open>p\<close>-th scancode, and the grid and the
  counter after \<open>p\<close> switches have been numbered.
\<close>

definition fresh_switch :: "nat \<Rightarrow> SwitchDef" where
  "fresh_switch p = \<lparr>scancode = of_nat (p + 1), state = UNKNOWN, sample_buffer = 0\<rparr>"

definition numbered :: "nat \<Rightarrow> nat \<Rightarrow> nat \<Rightarrow> SwitchDef list list \<times> 16 word \<Rightarrow> bool" where
  "numbered R C p = (\<lambda>(grid, k). length grid = R \<and> (\<forall>r<R. length (grid ! r) = C)
     \<and> k = of_nat (p + 1)
     \<and> (\<forall>r<R. \<forall>c<C. grid ! r ! c =
           (if r * C + c < p then fresh_switch (r * C + c)
            else \<lparr>scancode = 0, state = UNKNOWN, sample_buffer = 0\<rparr>)))"

subsection \<open>Sketches\<close>

text \<open>
  A sketch constructs the scanner, then calls its public methods in some order; a pass
  comes with the levels its reads will see. \<open>run_scanner\<close> is the execution of a sketch:
  its effects and the scanner it leaves.
\<close>

datatype call =
    Setup "SwitchHandler option" "SwitchHandler option"
  | Scan "nat \<Rightarrow> nat \<Rightarrow> pin_level"
  | IsSwitchClosed "16 word"

fun perform :: "call \<Rightarrow> Scanner \<Rightarrow> (effect list \<times> Scanner) option" where
  "perform (Setup switchclosed_handler switchopen_handler) s =
     Some (setup_scanner switchclosed_handler switchopen_handler s)"
| "perform (Scan digitalRead) s = scan digitalRead s"
| "perform (IsSwitchClosed scan_code) s = Some (snd (isSwitchClosed scan_code s))"

fun perform_all :: "call list \<Rightarrow> Scanner \<Rightarrow> (effect list \<times> Scanner) option" where
  "perform_all [] s = Some ([], s)"
| "perform_all (c # cs) s =
     (case perform c s of
        None \<Rightarrow> None
      | Some (es, s') \<Rightarrow>
          (case perform_all cs s' of
             None \<Rightarrow> None
           | Some (es', s'') \<Rightarrow> Some (es @ es', s'')))"

definition run_scanner ::
  "nat \<Rightarrow> nat \<Rightarrow> nat \<Rightarrow> 8 word list \<Rightarrow> 8 word list \<Rightarrow> bool \<Rightarrow> bool \<Rightarrow> call list
     \<Rightarrow> (effect list \<times> Scanner) option" where
  "run_scanner ROW_COUNT COL_COUNT EVENT_BUFFER_SIZE row_pins column_pins enable_pullups
       enable_software_debounce calls =
     (case SwitchMatrixScanner ROW_COUNT COL_COUNT EVENT_BUFFER_SIZE row_pins column_pins
             enable_pullups enable_software_debounce of
        None \<Rightarrow> None
      | Some s \<Rightarrow> perform_all calls s)"

text \<open>Two environments for examples: every switch held down, every switch released.\<close>

definition pressed :: "nat \<Rightarrow> nat \<Rightarrow> pin_level" where
  "pressed r c = LOW"

definition released :: "nat \<Rightarrow> nat \<Rightarrow> pin_level" where
  "released r c = HIGH"

text \<open>
  Example sketches on one switch with software debounce and both handlers registered
  (closed handler 1, open handler 2): the switch is held down for ten passes, which
  latches it \<^verbatim>\<open>CLOSED\<close>; then it is released for nine passes.
\<close>

definition hold_sketch :: "call list" where
  "hold_sketch = Setup (Some 1) (Some 2) # map Scan (replicate 10 pressed)"

definition release_passes :: "call list" where
  "release_passes = map Scan (replicate 9 released)"

text \<open>
  What an execution shows: the calls of the closed handler and of the open handler
  (handler, count, the scancodes passed), the grid it leaves and the answer of
  \<^verbatim>\<open>isSwitchClosed(1)\<close>.
\<close>

definition outcome ::
  "(effect list \<times> Scanner) option \<Rightarrow>
     ((SwitchHandler \<times> nat \<times> 16 word list) list \<times> (SwitchHandler \<times> nat \<times> 16 word list) list
       \<times> SwitchDef list list \<times> bool) option" where
  "outcome x =
     (case x of
        None \<Rightarrow> None
      | Some (es, s) \<Rightarrow>
          Some (closed_deliveries es, opened_deliveries es, m_switch_map s,
                fst (isSwitchClosed 1 s)))"

section \<open>The event buffers during a pass\<close>

text \<open>Handler calls among effects, and the composition of stretches of a pass.\<close>

lemma closed_deliveries_append [simp]:
  "closed_deliveries (es @ fs) = closed_deliveries es @ closed_deliveries fs"
  by (induction es rule: closed_deliveries.induct) simp_all

lemma opened_deliveries_append [simp]:
  "opened_deliveries (es @ fs) = opened_deliveries es @ opened_deliveries fs"
  by (induction es rule: opened_deliveries.induct) simp_all

lemma flow_refl: "flow N ho pend [] pend []"
  by (simp add: flow_def split: option.splits)

lemma flow_trans:
  assumes "flow N ho p0 ds1 p1 ev1" and "flow N ho p1 ds2 p2 ev2"
  shows "flow N ho p0 (ds1 @ ds2) p2 (ev1 @ ev2)"
proof (cases ho)
  case None
  with assms show ?thesis by (simp add: flow_def)
next
  case (Some h)
  from assms(1) Some obtain ps1 where 1: "ds1 = map (\<lambda>p. (h, N, p)) ps1"
    "\<forall>p\<in>set ps1. length p = N" "concat ps1 @ p1 = p0 @ ev1"
    by (auto simp: flow_def)
  from assms(2) Some obtain ps2 where 2: "ds2 = map (\<lambda>p. (h, N, p)) ps2"
    "\<forall>p\<in>set ps2. length p = N" "concat ps2 @ p2 = p1 @ ev2"
    by (auto simp: flow_def)
  have "concat (ps1 @ ps2) @ p2 = concat ps1 @ (p1 @ ev2)"
    using 2(3) by simp
  also have "\<dots> = p0 @ ev1 @ ev2"
    using 1(3) by (metis append.assoc)
  finally have "concat (ps1 @ ps2) @ p2 = p0 @ ev1 @ ev2" .
  moreover have "ds1 @ ds2 = map (\<lambda>p. (h, N, p)) (ps1 @ ps2)"
    using 1(1) 2(1) by simp
  moreover have "\<forall>p\<in>set (ps1 @ ps2). length p = N"
    using 1(2) 2(2) by auto
  ultimately show ?thesis
    unfolding flow_def Some by (simp only: option.case) blast
qed

text \<open>The final flush delivers what is pending.\<close>

lemma flow_final_two:
  assumes f: "flow N (Some h) [] ds pend evs" and N: "0 < N" and pl: "length pend < N"
    and l: "length evs = N + 1"
  shows "ds @ (if pend = [] then [] else [(h, length pend, pend)])
           = [(h, N, take N evs), (h, 1, drop N evs)]"
proof -
  from f obtain ps where ps: "ds = map (\<lambda>p. (h, N, p)) ps"
    "\<forall>p\<in>set ps. length p = N" "concat ps @ pend = evs"
    by (auto simp: flow_def)
  have len: "length (concat ps) = N * length ps"
    using ps(2) by (induction ps) simp_all
  from ps(3) l len have eq: "N * length ps + length pend = N + 1"
    by (metis length_append)
  show ?thesis
  proof (cases "pend = []")
    case True
    with eq have "N * length ps = N + 1" by simp
    then have "N dvd N + 1" by (metis dvd_triv_left)
    then have "N dvd 1" using dvd_add_right_iff[of N N 1] by simp
    then have N1: "N = 1" by simp
    with eq True have "length ps = 2" by simp
    then obtain a b where ab: "ps = [a, b]"
      by (metis (no_types, opaque_lifting) One_nat_def Suc_1 length_0_conv length_Suc_conv)
    with ps(2) N1 have "length a = 1" "length b = 1" by simp_all
    with ab ps(3) True N1 have "take N evs = a" "drop N evs = b" by auto
    with ab ps(1) True N1 show ?thesis by simp
  next
    case False
    then have "0 < length pend" by simp
    have "length ps = 1 \<and> length pend = 1"
    proof -
      have "0 < length ps" using eq pl by (cases "length ps") auto
      moreover have "\<not> 2 \<le> length ps"
      proof
        assume "2 \<le> length ps"
        then have "N * 2 \<le> N * length ps" by (rule mult_le_mono2)
        with eq \<open>0 < length pend\<close> pl show False by simp
      qed
      ultimately have "length ps = 1" by linarith
      with eq show ?thesis by simp
    qed
    then obtain a where a: "ps = [a]" and lp: "length pend = 1"
      by (metis One_nat_def length_0_conv length_Suc_conv)
    with ps(2) have "length a = N" by simp
    with a ps(3) have "take N evs = a" "drop N evs = pend" by auto
    with a ps(1) False lp show ?thesis by simp
  qed
qed

lemma flow_final_counts:
  assumes f: "flow N ho [] ds pend evs" and N: "0 < N" and pl: "length pend < N"
  shows "\<forall>(h, n, p)\<in>set ds. 1 \<le> n \<and> n \<le> N \<and> length p = n"
  using assms by (auto simp: flow_def split: option.splits)

lemma flow_final_end:
  assumes f: "flow N (Some h) [] ds pend evs" and N: "0 < N" and pl: "length pend < N"
    and l: "length evs = N + 1"
  shows "(if pend = [] then [] else [(h, length pend, pend)])
           = (if N = 1 then [] else [(h, 1, drop N evs)])"
proof -
  from f obtain ps where ps: "\<forall>p\<in>set ps. length p = N" "concat ps @ pend = evs"
    by (auto simp: flow_def)
  have len: "length (concat ps) = N * length ps"
    using ps(1) by (induction ps) simp_all
  from ps(2) l len have eq: "N * length ps + length pend = N + 1"
    by (metis length_append)
  have iff: "pend = [] \<longleftrightarrow> N = 1"
  proof
    assume "pend = []"
    with eq have "N * length ps = N + 1" by simp
    then have "N dvd N + 1" by (metis dvd_triv_left)
    then have "N dvd 1" using dvd_add_right_iff [of N N 1] by simp
    then show "N = 1" by simp
  next
    assume "N = 1"
    with pl show "pend = []" by simp
  qed
  show ?thesis
  proof (cases "pend = []")
    case True
    with iff show ?thesis by simp
  next
    case False
    from flow_final_two [OF f N pl l] False
    have "ds @ [(h, length pend, pend)] = [(h, N, take N evs), (h, 1, drop N evs)]"
      by (simp only: if_False)
    then have "last (ds @ [(h, length pend, pend)]) = last [(h, N, take N evs), (h, 1, drop N evs)]"
      by (simp only:)
    then have "(h, length pend, pend) = (h, 1, drop N evs)" using l by simp
    with False iff l show ?thesis by simp
  qed
qed

lemma flow_step:
  assumes "length (pend @ evs) \<le> N"
  shows "flow N ho pend
           (if length (pend @ evs) = N then (case ho of None \<Rightarrow> [] | Some h \<Rightarrow> [(h, N, pend @ evs)]) else [])
           (if length (pend @ evs) = N then [] else pend @ evs) evs"
proof (cases ho)
  case None
  then show ?thesis by (simp add: flow_def)
next
  case (Some h)
  show ?thesis
  proof (cases "length (pend @ evs) = N")
    case True
    have "[(h, N, pend @ evs)] = map (\<lambda>p. (h, N, p)) [pend @ evs]" by simp
    moreover have "\<forall>p\<in>set [pend @ evs]. length p = N" using True by simp
    moreover have "concat [pend @ evs] @ [] = pend @ evs" by simp
    ultimately have "flow N (Some h) pend [(h, N, pend @ evs)] [] evs"
      unfolding flow_def by (simp only: option.case) blast
    with True Some show ?thesis by simp
  next
    case False
    have "flow N (Some h) pend [] (pend @ evs) evs"
      unfolding flow_def by (simp only: option.case) (rule exI [of _ "[]"], simp)
    with False Some show ?thesis by simp
  qed
qed

section \<open>A pass over the grid\<close>

subsection \<open>One switch\<close>

text \<open>Appending to a buffer array at its count.\<close>

lemma take_push: "n < length xs \<Longrightarrow> take (Suc n) (xs[n := x]) = take n xs @ [x]"
  by (simp add: take_Suc_conv_app_nth)

lemma update_last: "Suc n = length xs \<Longrightarrow> xs[n := x] = take n xs @ [x]"
  using take_push [of n xs x] by simp

text \<open>
  \<^verbatim>\<open>handleSwitchState\<close>, given room for one more scancode in both buffers, returns: it
  latches the switch as \<open>latch_switch\<close> says, appends \<open>closed_event\<close> and \<open>opened_event\<close> to
  the two buffers, and reports an event when it appended one.
\<close>

lemma handleSwitchState_appends:
  assumes "m_scancode_event_buffer_closed_len s < event_buffer_size s"
    and "m_scancode_event_buffer_opened_len s < event_buffer_size s"
    and "length (m_scancode_event_buffer_closed s) = event_buffer_size s"
    and "length (m_scancode_event_buffer_opened s) = event_buffer_size s"
  shows "\<exists>s'. handleSwitchState swtch s
            = Some (closed_event swtch @ opened_event swtch \<noteq> [], latch_switch swtch, s')
     \<and> pending_closed s' = pending_closed s @ closed_event swtch
     \<and> pending_opened s' = pending_opened s @ opened_event swtch"
  using assms
  by (auto simp: handleSwitchState_def latch_switch_def closed_event_def opened_event_def
      pending_closed_def pending_opened_def take_push Let_def)

text \<open>
  The loop body of \<^verbatim>\<open>scan\<close> on one switch: the switch is replaced by \<open>scanned_switch\<close> and
  the two buffers keep their books (\<open>flow\<close>), also across a mid-pass flush.
\<close>

lemma scan_switch_spec:
  fixes digitalRead :: "nat \<Rightarrow> nat \<Rightarrow> pin_level" and r c :: nat and s :: Scanner
  defines "sw \<equiv> sample_switch (m_enable_software_debounce s) (digitalRead r c) (m_switch_map s ! r ! c)"
  assumes ok: "bufs_ok s"
  shows "\<exists>es s'. scan_switch digitalRead r c s = Some (es, s') \<and> config s' = config s \<and> bufs_ok s'
     \<and> m_switch_map s' = (m_switch_map s)[r := (m_switch_map s ! r)[c := latch_switch sw]]
     \<and> flow (event_buffer_size s) (m_switchhandler_closed s) (pending_closed s)
          (closed_deliveries es) (pending_closed s') (closed_event sw)
     \<and> flow (event_buffer_size s) (m_switchhandler_open s) (pending_opened s)
          (opened_deliveries es) (pending_opened s') (opened_event sw)"
proof -
  let ?N = "event_buffer_size s"
  let ?lc = "m_scancode_event_buffer_closed_len s"
  let ?lo = "m_scancode_event_buffer_opened_len s"
  from ok have N: "0 < ?N" and lc: "?lc < ?N" and lo: "?lo < ?N"
    and bc: "length (m_scancode_event_buffer_closed s) = ?N"
    and bo: "length (m_scancode_event_buffer_opened s) = ?N"
    by (simp_all add: bufs_ok_def)
  have sw: "(if m_enable_software_debounce s
             then handleSoftwareDebounce (m_switch_map s ! r ! c) (digitalRead r c = LOW)
             else (m_switch_map s ! r ! c)\<lparr>sample_buffer := (if digitalRead r c = LOW then 0xFF else 0x00)\<rparr>) = sw"
    by (simp add: sw_def sample_switch_def)
  consider (c_closed) "is_closed DebounceSampleMask (sample_buffer sw)" "state sw \<noteq> CLOSED"
    | (c_opened) "\<not> (is_closed DebounceSampleMask (sample_buffer sw) \<and> state sw \<noteq> CLOSED)"
        "is_open DebounceSampleMask (sample_buffer sw)" "state sw = UNKNOWN"
    | (c_quiet) "\<not> (is_closed DebounceSampleMask (sample_buffer sw) \<and> state sw \<noteq> CLOSED)"
        "\<not> (is_open DebounceSampleMask (sample_buffer sw) \<and> state sw = UNKNOWN)"
    by blast
  then show ?thesis
  proof cases
    case c_closed
    have fo: "flow ?N (m_switchhandler_open s) (pending_opened s) [] (pending_opened s) []"
      by (rule flow_refl)
    have fc: "flow ?N (m_switchhandler_closed s) (pending_closed s)
           (if length (pending_closed s @ [scancode sw]) = ?N
            then (case m_switchhandler_closed s of None \<Rightarrow> [] | Some h \<Rightarrow> [(h, ?N, pending_closed s @ [scancode sw])]) else [])
           (if length (pending_closed s @ [scancode sw]) = ?N then [] else pending_closed s @ [scancode sw]) [scancode sw]"
      by (rule flow_step) (use lc bc in \<open>simp add: pending_closed_def\<close>)
    note fc = fc [unfolded pending_closed_def]
    show ?thesis
      using c_closed lc lo bc bo N fo fc
      apply (simp add: scan_switch_def Let_def sw handleSwitchState_def flush_closed_events_def
          flush_opened_events_def onSwitchClosed_def config_def bufs_ok_def latch_switch_def
          closed_event_def opened_event_def pending_closed_def pending_opened_def take_push
          split: option.splits)
      apply (auto simp: take_push update_last)
      done
  next
    case c_opened
    have fc: "flow ?N (m_switchhandler_closed s) (pending_closed s) [] (pending_closed s) []"
      by (rule flow_refl)
    have fo: "flow ?N (m_switchhandler_open s) (pending_opened s)
           (if length (pending_opened s @ [scancode sw]) = ?N
            then (case m_switchhandler_open s of None \<Rightarrow> [] | Some h \<Rightarrow> [(h, ?N, pending_opened s @ [scancode sw])]) else [])
           (if length (pending_opened s @ [scancode sw]) = ?N then [] else pending_opened s @ [scancode sw]) [scancode sw]"
      by (rule flow_step) (use lo bo in \<open>simp add: pending_opened_def\<close>)
    note fo = fo [unfolded pending_opened_def]
    show ?thesis
      using c_opened lc lo bc bo N fo fc
      apply (simp add: scan_switch_def Let_def sw handleSwitchState_def flush_closed_events_def
          flush_opened_events_def onSwitchOpen_def config_def bufs_ok_def latch_switch_def
          closed_event_def opened_event_def pending_closed_def pending_opened_def take_push
          split: option.splits)
      apply (auto simp: take_push update_last)
      done
  next
    case c_quiet
    have fc: "flow ?N (m_switchhandler_closed s) (pending_closed s) [] (pending_closed s) []"
      by (rule flow_refl)
    have fo: "flow ?N (m_switchhandler_open s) (pending_opened s) [] (pending_opened s) []"
      by (rule flow_refl)
    show ?thesis
      using c_quiet lc lo bc bo N fo fc
      apply (simp add: scan_switch_def Let_def sw handleSwitchState_def flush_closed_events_def
          flush_opened_events_def config_def bufs_ok_def latch_switch_def
          closed_event_def opened_event_def pending_closed_def pending_opened_def
          split: option.splits)
      done
  qed
qed

subsection \<open>One row\<close>

text \<open>A loop that returns at every index and keeps an invariant returns, with the invariant.\<close>

lemma for_loop_snoc:
  "for_loop (is @ [i]) body s =
     (case for_loop is body s of
        None \<Rightarrow> None
      | Some (es, t) \<Rightarrow>
          (case body i t of None \<Rightarrow> None | Some (es', t') \<Rightarrow> Some (es @ es', t')))"
  by (induction "is" arbitrary: s) (auto split: option.splits)

lemma for_loop_upt_rule:
  assumes init: "I 0 [] s"
    and step: "\<And>i es t. i < n \<Longrightarrow> I i es t \<Longrightarrow>
                 \<exists>es' t'. body i t = Some (es', t') \<and> I (Suc i) (es @ es') t'"
  shows "\<exists>es t. for_loop [0..<n] body s = Some (es, t) \<and> I n es t"
  using step
proof (induction n)
  case 0
  with init show ?case by simp
next
  case (Suc n)
  have "\<exists>es t. for_loop [0..<n] body s = Some (es, t) \<and> I n es t"
    by (rule Suc.IH) (use Suc.prems in auto)
  then obtain es t where l: "for_loop [0..<n] body s = Some (es, t)" and i: "I n es t"
    by blast
  from Suc.prems [of n es t] i obtain es' t'
    where b: "body n t = Some (es', t')" and i': "I (Suc n) (es @ es') t'"
    by auto
  from l b have "for_loop [0..<Suc n] body s = Some (es @ es', t')"
    by (simp add: for_loop_snoc)
  with i' show ?case by blast
qed

lemma scanned_row_0 [simp]: "scanned_row d v 0 row = row"
  by (simp add: scanned_row_def map_nth)

lemma length_scanned_row [simp]: "length (scanned_row d v c row) = length row"
  by (simp add: scanned_row_def)

lemma scanned_row_nth:
  "i < length row \<Longrightarrow> scanned_row d v c row ! i
     = (if i < c then scanned_switch d (v i) (row ! i) else row ! i)"
  by (simp add: scanned_row_def)

lemma scanned_row_Suc:
  "c < length row \<Longrightarrow>
     (scanned_row d v c row)[c := scanned_switch d (v c) (row ! c)] = scanned_row d v (Suc c) row"
  by (rule nth_equalityI) (auto simp: scanned_row_nth nth_list_update less_Suc_eq)

lemma row_events_0 [simp]: "row_events ev d v 0 row = []"
  by (simp add: row_events_def)

lemma row_events_Suc:
  "row_events ev d v (Suc c) row = row_events ev d v c row @ ev (sample_switch d (v c) (row ! c))"
  by (simp add: row_events_def)

lemma scan_columns_spec:
  assumes ok: "bufs_ok s" and g: "grid_ok s" and r: "r < row_count s"
  shows "\<exists>es s'. for_loop [0..<col_count s] (scan_switch digitalRead r) s = Some (es, s')
     \<and> config s' = config s \<and> bufs_ok s'
     \<and> m_switch_map s' = (m_switch_map s)
          [r := scanned_row (m_enable_software_debounce s) (digitalRead r) (col_count s) (m_switch_map s ! r)]
     \<and> flow (event_buffer_size s) (m_switchhandler_closed s) (pending_closed s)
          (closed_deliveries es) (pending_closed s')
          (row_events closed_event (m_enable_software_debounce s) (digitalRead r) (col_count s) (m_switch_map s ! r))
     \<and> flow (event_buffer_size s) (m_switchhandler_open s) (pending_opened s)
          (opened_deliveries es) (pending_opened s')
          (row_events opened_event (m_enable_software_debounce s) (digitalRead r) (col_count s) (m_switch_map s ! r))"
proof -
  let ?d = "m_enable_software_debounce s"
  let ?row = "m_switch_map s ! r"
  from g r have rl: "r < length (m_switch_map s)" and cl: "length ?row = col_count s"
    by (simp_all add: grid_ok_def)
  let ?I = "\<lambda>c es t. config t = config s \<and> bufs_ok t
     \<and> m_switch_map t = (m_switch_map s)[r := scanned_row ?d (digitalRead r) c ?row]
     \<and> flow (event_buffer_size s) (m_switchhandler_closed s) (pending_closed s)
          (closed_deliveries es) (pending_closed t) (row_events closed_event ?d (digitalRead r) c ?row)
     \<and> flow (event_buffer_size s) (m_switchhandler_open s) (pending_opened s)
          (opened_deliveries es) (pending_opened t) (row_events opened_event ?d (digitalRead r) c ?row)"
  have "\<exists>es t. for_loop [0..<col_count s] (scan_switch digitalRead r) s = Some (es, t)
          \<and> ?I (col_count s) es t"
  proof (rule for_loop_upt_rule [where I = ?I])
    show "?I 0 [] s"
      using ok by (simp add: flow_refl list_update_same_conv)
  next
    fix c es t
    assume c: "c < col_count s" and inv: "?I c es t"
    from inv have cf: "config t = config s" and okt: "bufs_ok t"
      and m: "m_switch_map t = (m_switch_map s)[r := scanned_row ?d (digitalRead r) c ?row]"
      and fc: "flow (event_buffer_size s) (m_switchhandler_closed s) (pending_closed s)
          (closed_deliveries es) (pending_closed t) (row_events closed_event ?d (digitalRead r) c ?row)"
      and fo: "flow (event_buffer_size s) (m_switchhandler_open s) (pending_opened s)
          (opened_deliveries es) (pending_opened t) (row_events opened_event ?d (digitalRead r) c ?row)"
      by simp_all
    from cf have eqs: "m_enable_software_debounce t = ?d" "event_buffer_size t = event_buffer_size s"
      "m_switchhandler_closed t = m_switchhandler_closed s"
      "m_switchhandler_open t = m_switchhandler_open s"
      by (simp_all add: config_def)
    have cell: "m_switch_map t ! r ! c = ?row ! c"
      using m rl cl c by (simp add: scanned_row_nth)
    from scan_switch_spec [OF okt, of digitalRead r c] obtain es' t'
      where sc: "scan_switch digitalRead r c t = Some (es', t')"
        and cf': "config t' = config t" and ok': "bufs_ok t'"
        and m': "m_switch_map t' = (m_switch_map t)
                   [r := (m_switch_map t ! r)[c := latch_switch (sample_switch ?d (digitalRead r c) (?row ! c))]]"
        and fc': "flow (event_buffer_size s) (m_switchhandler_closed s) (pending_closed t)
                   (closed_deliveries es') (pending_closed t')
                   (closed_event (sample_switch ?d (digitalRead r c) (?row ! c)))"
        and fo': "flow (event_buffer_size s) (m_switchhandler_open s) (pending_opened t)
                   (opened_deliveries es') (pending_opened t')
                   (opened_event (sample_switch ?d (digitalRead r c) (?row ! c)))"
      unfolding eqs cell by blast
    have "m_switch_map t' = (m_switch_map s)[r := scanned_row ?d (digitalRead r) (Suc c) ?row]"
      using m' m rl cl c scanned_row_Suc [of c ?row ?d "digitalRead r"]
      by (simp add: scanned_switch_def)
    moreover have "flow (event_buffer_size s) (m_switchhandler_closed s) (pending_closed s)
          (closed_deliveries (es @ es')) (pending_closed t')
          (row_events closed_event ?d (digitalRead r) (Suc c) ?row)"
      using flow_trans [OF fc fc'] by (simp add: row_events_Suc)
    moreover have "flow (event_buffer_size s) (m_switchhandler_open s) (pending_opened s)
          (opened_deliveries (es @ es')) (pending_opened t')
          (row_events opened_event ?d (digitalRead r) (Suc c) ?row)"
      using flow_trans [OF fo fo'] by (simp add: row_events_Suc)
    ultimately show "\<exists>es' t'. scan_switch digitalRead r c t = Some (es', t') \<and> ?I (Suc c) (es @ es') t'"
      using sc cf cf' ok' by auto
  qed
  then show ?thesis by blast
qed

subsection \<open>All rows and the final flush\<close>

lemma scanned_grid_0 [simp]: "scanned_grid d v 0 grid = grid"
  by (simp add: scanned_grid_def map_nth)

lemma length_scanned_grid [simp]: "length (scanned_grid d v r grid) = length grid"
  by (simp add: scanned_grid_def)

lemma scanned_grid_nth:
  "i < length grid \<Longrightarrow> scanned_grid d v r grid ! i
     = (if i < r then scanned_row d (v i) (length (grid ! i)) (grid ! i) else grid ! i)"
  by (simp add: scanned_grid_def)

lemma scanned_grid_Suc:
  "r < length grid \<Longrightarrow>
     (scanned_grid d v r grid)[r := scanned_row d (v r) (length (grid ! r)) (grid ! r)]
       = scanned_grid d v (Suc r) grid"
  by (rule nth_equalityI) (auto simp: scanned_grid_nth nth_list_update less_Suc_eq)

lemma grid_events_0 [simp]: "grid_events ev d v 0 grid = []"
  by (simp add: grid_events_def)

lemma grid_events_Suc:
  "grid_events ev d v (Suc r) grid
     = grid_events ev d v r grid @ row_events ev d (v r) (length (grid ! r)) (grid ! r)"
  by (simp add: grid_events_def)

lemma grid_ok_scanned:
  assumes "grid_ok s" and "config t = config s"
    and "m_switch_map t = scanned_grid d v r (m_switch_map s)"
  shows "grid_ok t"
  using assms
  by (auto simp: grid_ok_def config_def scanned_grid_def split: if_splits)

lemma scan_row_spec:
  assumes ok: "bufs_ok s" and g: "grid_ok s" and r: "r < row_count s"
  shows "\<exists>es s'. scan_row digitalRead r s = Some (es, s')
     \<and> config s' = config s \<and> bufs_ok s'
     \<and> m_switch_map s' = (m_switch_map s)
          [r := scanned_row (m_enable_software_debounce s) (digitalRead r) (col_count s) (m_switch_map s ! r)]
     \<and> flow (event_buffer_size s) (m_switchhandler_closed s) (pending_closed s)
          (closed_deliveries es) (pending_closed s')
          (row_events closed_event (m_enable_software_debounce s) (digitalRead r) (col_count s) (m_switch_map s ! r))
     \<and> flow (event_buffer_size s) (m_switchhandler_open s) (pending_opened s)
          (opened_deliveries es) (pending_opened s')
          (row_events opened_event (m_enable_software_debounce s) (digitalRead r) (col_count s) (m_switch_map s ! r))"
proof -
  from scan_columns_spec [OF ok g r, of digitalRead] obtain es s'
    where l: "for_loop [0..<col_count s] (scan_switch digitalRead r) s = Some (es, s')"
      and rest: "config s' = config s" "bufs_ok s'"
        "m_switch_map s' = (m_switch_map s)
          [r := scanned_row (m_enable_software_debounce s) (digitalRead r) (col_count s) (m_switch_map s ! r)]"
        "flow (event_buffer_size s) (m_switchhandler_closed s) (pending_closed s)
          (closed_deliveries es) (pending_closed s')
          (row_events closed_event (m_enable_software_debounce s) (digitalRead r) (col_count s) (m_switch_map s ! r))"
        "flow (event_buffer_size s) (m_switchhandler_open s) (pending_opened s)
          (opened_deliveries es) (pending_opened s')
          (row_events opened_event (m_enable_software_debounce s) (digitalRead r) (col_count s) (m_switch_map s ! r))"
    by blast
  from l have "scan_row digitalRead r s
      = Some ([PinMode (m_row_pins s ! r) OUTPUT, DigitalWrite (m_row_pins s ! r) LOW] @ es
               @ [PinMode (m_row_pins s ! r) INPUT], s')"
    by (simp add: scan_row_def Let_def)
  with rest show ?thesis by simp
qed

lemma scan_rows_spec:
  assumes ok: "bufs_ok s" and g: "grid_ok s"
  shows "\<exists>es s'. for_loop [0..<row_count s] (scan_row digitalRead) s = Some (es, s')
     \<and> config s' = config s \<and> bufs_ok s'
     \<and> m_switch_map s' = scanned_grid (m_enable_software_debounce s) digitalRead (row_count s) (m_switch_map s)
     \<and> flow (event_buffer_size s) (m_switchhandler_closed s) (pending_closed s)
          (closed_deliveries es) (pending_closed s')
          (grid_events closed_event (m_enable_software_debounce s) digitalRead (row_count s) (m_switch_map s))
     \<and> flow (event_buffer_size s) (m_switchhandler_open s) (pending_opened s)
          (opened_deliveries es) (pending_opened s')
          (grid_events opened_event (m_enable_software_debounce s) digitalRead (row_count s) (m_switch_map s))"
proof -
  let ?d = "m_enable_software_debounce s"
  let ?m = "m_switch_map s"
  from g have ml: "length ?m = row_count s"
    and cl: "\<And>i. i < row_count s \<Longrightarrow> length (?m ! i) = col_count s"
    by (simp_all add: grid_ok_def)
  let ?I = "\<lambda>r es t. config t = config s \<and> bufs_ok t
     \<and> m_switch_map t = scanned_grid ?d digitalRead r ?m
     \<and> flow (event_buffer_size s) (m_switchhandler_closed s) (pending_closed s)
          (closed_deliveries es) (pending_closed t) (grid_events closed_event ?d digitalRead r ?m)
     \<and> flow (event_buffer_size s) (m_switchhandler_open s) (pending_opened s)
          (opened_deliveries es) (pending_opened t) (grid_events opened_event ?d digitalRead r ?m)"
  have "\<exists>es t. for_loop [0..<row_count s] (scan_row digitalRead) s = Some (es, t)
          \<and> ?I (row_count s) es t"
  proof (rule for_loop_upt_rule [where I = ?I])
    show "?I 0 [] s"
      using ok by (simp add: flow_refl)
  next
    fix r es t
    assume r: "r < row_count s" and inv: "?I r es t"
    from inv have cf: "config t = config s" and okt: "bufs_ok t"
      and m: "m_switch_map t = scanned_grid ?d digitalRead r ?m"
      and fc: "flow (event_buffer_size s) (m_switchhandler_closed s) (pending_closed s)
          (closed_deliveries es) (pending_closed t) (grid_events closed_event ?d digitalRead r ?m)"
      and fo: "flow (event_buffer_size s) (m_switchhandler_open s) (pending_opened s)
          (opened_deliveries es) (pending_opened t) (grid_events opened_event ?d digitalRead r ?m)"
      by simp_all
    from cf have eqs: "m_enable_software_debounce t = ?d" "event_buffer_size t = event_buffer_size s"
      "m_switchhandler_closed t = m_switchhandler_closed s"
      "m_switchhandler_open t = m_switchhandler_open s"
      "row_count t = row_count s" "col_count t = col_count s"
      by (simp_all add: config_def)
    have gt: "grid_ok t" using g cf m by (rule grid_ok_scanned)
    have rt: "r < row_count t" using r eqs by simp
    have row: "m_switch_map t ! r = ?m ! r"
      using m ml r by (simp add: scanned_grid_nth)
    from scan_row_spec [OF okt gt rt, of digitalRead] obtain es' t'
      where sc: "scan_row digitalRead r t = Some (es', t')"
        and cf': "config t' = config t" and ok': "bufs_ok t'"
        and m': "m_switch_map t' = (m_switch_map t)
                   [r := scanned_row ?d (digitalRead r) (col_count s) (?m ! r)]"
        and fc': "flow (event_buffer_size s) (m_switchhandler_closed s) (pending_closed t)
                   (closed_deliveries es') (pending_closed t')
                   (row_events closed_event ?d (digitalRead r) (col_count s) (?m ! r))"
        and fo': "flow (event_buffer_size s) (m_switchhandler_open s) (pending_opened t)
                   (opened_deliveries es') (pending_opened t')
                   (row_events opened_event ?d (digitalRead r) (col_count s) (?m ! r))"
      unfolding eqs row by blast
    have "m_switch_map t' = scanned_grid ?d digitalRead (Suc r) ?m"
      using m' m ml r cl [OF r] scanned_grid_Suc [of r ?m ?d digitalRead] by simp
    moreover have "flow (event_buffer_size s) (m_switchhandler_closed s) (pending_closed s)
          (closed_deliveries (es @ es')) (pending_closed t')
          (grid_events closed_event ?d digitalRead (Suc r) ?m)"
      using flow_trans [OF fc fc'] cl [OF r] by (simp add: grid_events_Suc)
    moreover have "flow (event_buffer_size s) (m_switchhandler_open s) (pending_opened s)
          (opened_deliveries (es @ es')) (pending_opened t')
          (grid_events opened_event ?d digitalRead (Suc r) ?m)"
      using flow_trans [OF fo fo'] cl [OF r] by (simp add: grid_events_Suc)
    ultimately show "\<exists>es' t'. scan_row digitalRead r t = Some (es', t') \<and> ?I (Suc r) (es @ es') t'"
      using sc cf cf' ok' by auto
  qed
  then show ?thesis by blast
qed

lemma bufs_idle_ok: "bufs_idle s \<Longrightarrow> bufs_ok s"
  by (simp add: bufs_idle_def bufs_ok_def)

lemma scan_spec_split:
  assumes idle: "bufs_idle s" and g: "grid_ok s"
  shows "\<exists>es_loop t es_end s'.
       for_loop [0..<row_count s] (scan_row digitalRead) s = Some (es_loop, t)
     \<and> scan digitalRead s = Some (es_loop @ es_end, s')
     \<and> config s' = config s \<and> bufs_idle s' \<and> grid_ok s'
     \<and> m_switch_map s' = scanned_grid (m_enable_software_debounce s) digitalRead (row_count s) (m_switch_map s)
     \<and> closed_deliveries es_end = final_delivery (m_switchhandler_closed s) (pending_closed t)
     \<and> length (pending_closed t) < event_buffer_size s
     \<and> flow (event_buffer_size s) (m_switchhandler_closed s) [] (closed_deliveries es_loop)
          (pending_closed t)
          (grid_events closed_event (m_enable_software_debounce s) digitalRead (row_count s) (m_switch_map s))
     \<and> opened_deliveries es_end = final_delivery (m_switchhandler_open s) (pending_opened t)
     \<and> length (pending_opened t) < event_buffer_size s
     \<and> flow (event_buffer_size s) (m_switchhandler_open s) [] (opened_deliveries es_loop)
          (pending_opened t)
          (grid_events opened_event (m_enable_software_debounce s) digitalRead (row_count s) (m_switch_map s))"
proof -
  let ?d = "m_enable_software_debounce s"
  from idle have ok: "bufs_ok s" by (rule bufs_idle_ok)
  from idle have p0: "pending_closed s = []" "pending_opened s = []"
    by (simp_all add: bufs_idle_def pending_closed_def pending_opened_def)
  from scan_rows_spec [OF ok g, of digitalRead] obtain es t
    where l: "for_loop [0..<row_count s] (scan_row digitalRead) s = Some (es, t)"
      and cf: "config t = config s" and okt: "bufs_ok t"
      and m: "m_switch_map t = scanned_grid ?d digitalRead (row_count s) (m_switch_map s)"
      and fc: "flow (event_buffer_size s) (m_switchhandler_closed s) []
          (closed_deliveries es) (pending_closed t)
          (grid_events closed_event ?d digitalRead (row_count s) (m_switch_map s))"
      and fo: "flow (event_buffer_size s) (m_switchhandler_open s) []
          (opened_deliveries es) (pending_opened t)
          (grid_events opened_event ?d digitalRead (row_count s) (m_switch_map s))"
    unfolding p0 by blast
  from cf have eqs: "event_buffer_size t = event_buffer_size s"
      "m_switchhandler_closed t = m_switchhandler_closed s"
      "m_switchhandler_open t = m_switchhandler_open s"
    by (simp_all add: config_def)
  obtain es1 t1 where f1: "flush_closed_events t = (es1, t1)" by (cases "flush_closed_events t")
  obtain es2 t2 where f2: "flush_opened_events t1 = (es2, t2)" by (cases "flush_opened_events t1")
  from l f1 f2 have sc: "scan digitalRead s = Some (es @ (es1 @ es2), t2)"
    by (simp add: scan_def)
  from okt have lens: "m_scancode_event_buffer_closed_len t < length (m_scancode_event_buffer_closed t)"
      "m_scancode_event_buffer_opened_len t < length (m_scancode_event_buffer_opened t)"
    by (simp_all add: bufs_ok_def)
  have c1: "closed_deliveries es1 = final_delivery (m_switchhandler_closed s) (pending_closed t)"
    and o1: "opened_deliveries es1 = []"
    using f1 lens eqs
    by (auto simp: flush_closed_events_def onSwitchClosed_def final_delivery_def pending_closed_def
        split: if_splits option.splits)
  have t1: "t1 = t\<lparr>m_scancode_event_buffer_closed_len := 0\<rparr>"
    using f1 by (auto simp: flush_closed_events_def split: if_splits)
  have c2: "closed_deliveries es2 = []"
    and o2: "opened_deliveries es2 = final_delivery (m_switchhandler_open s) (pending_opened t)"
    using f2 lens eqs t1
    by (auto simp: flush_opened_events_def onSwitchOpen_def final_delivery_def pending_opened_def
        split: if_splits option.splits)
  have t2: "t2 = t\<lparr>m_scancode_event_buffer_closed_len := 0, m_scancode_event_buffer_opened_len := 0\<rparr>"
    using f2 t1 by (auto simp: flush_opened_events_def split: if_splits)
  have cf2: "config t2 = config s" using cf t2 by (simp add: config_def)
  have idle2: "bufs_idle t2" using okt t2 by (simp add: bufs_idle_def bufs_ok_def)
  have m2: "m_switch_map t2 = scanned_grid ?d digitalRead (row_count s) (m_switch_map s)"
    using m t2 by simp
  have g2: "grid_ok t2" using g cf2 m2 by (rule grid_ok_scanned)
  have pc: "length (pending_closed t) < event_buffer_size s"
    and po: "length (pending_opened t) < event_buffer_size s"
    using okt eqs by (simp_all add: bufs_ok_def pending_closed_def pending_opened_def)
  have "closed_deliveries (es1 @ es2) = final_delivery (m_switchhandler_closed s) (pending_closed t)"
    using c1 c2 by simp
  moreover have "opened_deliveries (es1 @ es2) = final_delivery (m_switchhandler_open s) (pending_opened t)"
    using o1 o2 by simp
  ultimately show ?thesis
    using l sc cf2 idle2 g2 m2 pc po fc fo by blast
qed

lemma scan_spec:
  assumes idle: "bufs_idle s" and g: "grid_ok s"
  shows "\<exists>es s'. scan digitalRead s = Some (es, s')
     \<and> config s' = config s \<and> bufs_idle s' \<and> grid_ok s'
     \<and> m_switch_map s' = scanned_grid (m_enable_software_debounce s) digitalRead (row_count s) (m_switch_map s)"
  using scan_spec_split [OF idle g, of digitalRead] by blast

section \<open>Software debounce\<close>

text \<open>A property of all bytes is checked on the 256 bytes.\<close>

lemma all_byte: "(\<forall>w::8 word. P w) \<longleftrightarrow> (\<forall>n\<in>set [0..<256]. P (of_nat n))"
proof
  assume r: "\<forall>n\<in>set [0..<256]. P (of_nat n)"
  show "\<forall>w::8 word. P w"
  proof
    fix w :: "8 word"
    have "unat w < 256" using unsigned_less [of w, where 'a = nat] by simp
    then have "unat w \<in> set [0..<256]" by simp
    with r have "P (of_nat (unat w))" by (rule bspec)
    then show "P w" by simp
  qed
qed simp

lemma handleSoftwareDebounce_byte:
  "handleSoftwareDebounce swtch p = swtch\<lparr>sample_buffer := debounce_byte (sample_buffer swtch) p\<rparr>"
  by (simp add: handleSoftwareDebounce_def debounce_byte_def Let_def)

lemma debounce_byte_settling:
  "\<forall>b p. settle_count_of b < DebounceSettleCount \<longrightarrow>
     settle_count_of (debounce_byte b p) = settle_count_of b + 1
     \<and> sample_window (debounce_byte b p) = sample_window b"
  unfolding all_byte by code_simp

lemma debounce_byte_sampling:
  "\<forall>b p. settle_count_of b = DebounceSettleCount \<longrightarrow>
     settle_count_of (debounce_byte b p) = DebounceSettleCount
     \<and> sample_window (debounce_byte b p)
         = (push_bit 1 (sample_window b) AND DebounceSampleMask) OR (if p then 1 else 0)"
  unfolding all_byte by code_simp

text \<open>
  C4. One step of \<^verbatim>\<open>handleSoftwareDebounce\<close> on any sample buffer byte: while the settle
  counter is below \<^verbatim>\<open>DebounceSettleCount\<close> (4) the counter grows by one and the five window
  bits stay as they are; when the counter equals 4 it stays 4 and the window is shifted
  left by one inside its five bits with the new raw sample as bit 0. The scancode and the
  latched state are never touched.
\<close>

theorem handleSoftwareDebounce_step:
  fixes swtch :: SwitchDef and is_switch_pressed :: bool
  defines "b \<equiv> sample_buffer swtch"
    and "b' \<equiv> sample_buffer (handleSoftwareDebounce swtch is_switch_pressed)"
  shows "(settle_count_of b < DebounceSettleCount \<longrightarrow>
            settle_count_of b' = settle_count_of b + 1 \<and> sample_window b' = sample_window b)
       \<and> (settle_count_of b = DebounceSettleCount \<longrightarrow>
            settle_count_of b' = DebounceSettleCount
            \<and> sample_window b'
                = (push_bit 1 (sample_window b) AND DebounceSampleMask)
                    OR (if is_switch_pressed then 1 else 0))
       \<and> scancode (handleSoftwareDebounce swtch is_switch_pressed) = scancode swtch
       \<and> state (handleSoftwareDebounce swtch is_switch_pressed) = state swtch"
  using debounce_byte_settling debounce_byte_sampling
  by (simp add: b_def b'_def handleSoftwareDebounce_byte)

theorem handleSoftwareDebounce_step_witness:
  "settle_count_of 0x25 < DebounceSettleCount
   \<and> settle_count_of (sample_buffer (handleSoftwareDebounce
        \<lparr>scancode = 1, state = OPEN, sample_buffer = 0x25\<rparr> True)) = 2
   \<and> sample_window (sample_buffer (handleSoftwareDebounce
        \<lparr>scancode = 1, state = OPEN, sample_buffer = 0x25\<rparr> True)) = 5
   \<and> settle_count_of 0x95 = DebounceSettleCount
   \<and> settle_count_of (sample_buffer (handleSoftwareDebounce
        \<lparr>scancode = 1, state = OPEN, sample_buffer = 0x95\<rparr> True)) = 4
   \<and> sample_window (sample_buffer (handleSoftwareDebounce
        \<lparr>scancode = 1, state = OPEN, sample_buffer = 0x95\<rparr> True)) = 0x0B"
  using handleSoftwareDebounce_step [of "\<lparr>scancode = 1, state = OPEN, sample_buffer = 0x25\<rparr>" True]
    handleSoftwareDebounce_step [of "\<lparr>scancode = 1, state = OPEN, sample_buffer = 0x95\<rparr>" True]
  by (simp add: settle_count_of_def sample_window_def DebounceSettleCount_def
      DebounceSettleMask_def DebounceSampleMask_def DebounceSettleShift_def
      DebounceSampleBits_def DebounceSettleBits_def)

section \<open>Construction\<close>

text \<open>The constructor's nested loops number the switches row by row.\<close>

lemma fold_upt_rule:
  assumes "I 0 s" and "\<And>i t. i < n \<Longrightarrow> I i t \<Longrightarrow> I (Suc i) (f i t)"
  shows "I n (fold f [0..<n] s)"
  using assms(2)
proof (induction n)
  case 0
  with assms(1) show ?case by simp
next
  case (Suc n)
  have "I n (fold f [0..<n] s)" by (rule Suc.IH) (use Suc.prems in auto)
  with Suc.prems [of n "fold f [0..<n] s"] show ?case by simp
qed

lemma position_eq:
  assumes "c < C" and "c' < C"
  shows "r' * C + c' = r * C + c \<longleftrightarrow> r' = r \<and> c' = (c::nat)"
proof
  assume e: "r' * C + c' = r * C + c"
  have "(r' * C + c') div C = r'" "(r * C + c) div C = r" using assms by simp_all
  with e have "r' = r" by simp
  with e show "r' = r \<and> c' = c" by simp
qed simp

lemma position_less:
  assumes "c < C" and "r < R"
  shows "r * C + c < R * (C::nat)"
proof -
  have "r * C + c < r * C + C" using assms by simp
  also have "\<dots> = Suc r * C" by simp
  also have "\<dots> \<le> R * C" using assms by (intro mult_le_mono1) simp
  finally show ?thesis .
qed

lemma numbered_step:
  assumes n: "numbered R C (r * C + c) t" and r: "r < R" and c: "c < C"
  shows "numbered R C (r * C + Suc c) (init_switch r c t)"
proof -
  obtain grid k where t: "t = (grid, k)" by (cases t)
  from n t have l: "length grid = R" and ls: "\<forall>r<R. length (grid ! r) = C"
    and k: "k = of_nat (r * C + c + 1)"
    and cells: "\<forall>r'<R. \<forall>c'<C. grid ! r' ! c' =
           (if r' * C + c' < r * C + c then fresh_switch (r' * C + c')
            else \<lparr>scancode = 0, state = UNKNOWN, sample_buffer = 0\<rparr>)"
    by (simp_all add: numbered_def)
  let ?g = "grid[r := (grid ! r)[c := \<lparr>scancode = k, state = UNKNOWN, sample_buffer = 0\<rparr>]]"
  have "\<forall>r'<R. \<forall>c'<C. ?g ! r' ! c' =
           (if r' * C + c' < r * C + Suc c then fresh_switch (r' * C + c')
            else \<lparr>scancode = 0, state = UNKNOWN, sample_buffer = 0\<rparr>)"
  proof (intro allI impI)
    fix r' c' assume r': "r' < R" and c': "c' < C"
    show "?g ! r' ! c' =
           (if r' * C + c' < r * C + Suc c then fresh_switch (r' * C + c')
            else \<lparr>scancode = 0, state = UNKNOWN, sample_buffer = 0\<rparr>)"
    proof (cases "r' = r \<and> c' = c")
      case True
      then show ?thesis using l ls r c k by (simp add: fresh_switch_def)
    next
      case False
      then have ne: "r' * C + c' \<noteq> r * C + c" using position_eq [OF c c'] by simp
      have "?g ! r' ! c' = grid ! r' ! c'"
        using False l ls r r' by (cases "r' = r") (auto simp: nth_list_update)
      with cells r' c' ne show ?thesis by (auto simp: less_Suc_eq)
    qed
  qed
  moreover have "length ?g = R" using l by simp
  moreover have "\<forall>r'<R. length (?g ! r') = C"
  proof (intro allI impI)
    fix r' assume "r' < R"
    with l ls r show "length (?g ! r') = C"
      by (cases "r' = r") simp_all
  qed
  moreover have "k + 1 = of_nat (r * C + Suc c + 1)" using k by simp
  ultimately show ?thesis
    unfolding t by (simp add: init_switch_def numbered_def)
qed

lemma numbered_row:
  assumes n: "numbered R C (r * C) t" and r: "r < R"
  shows "numbered R C (Suc r * C) (fold (\<lambda>c. init_switch r c) [0..<C] t)"
proof -
  have "numbered R C (r * C + C) (fold (\<lambda>c. init_switch r c) [0..<C] t)"
    by (rule fold_upt_rule [where I = "\<lambda>c. numbered R C (r * C + c)"])
      (use n r numbered_step in auto)
  then show ?thesis by (simp add: add.commute)
qed

lemma numbered_all:
  "numbered R C (R * C)
     (fold (\<lambda>r. fold (\<lambda>c. init_switch r c) [0..<C]) [0..<R]
        (replicate R (replicate C \<lparr>scancode = 0, state = UNKNOWN, sample_buffer = 0\<rparr>), 1))"
  by (rule fold_upt_rule [where I = "\<lambda>r. numbered R C (r * C)"])
    (use numbered_row in \<open>auto simp: numbered_def\<close>)

lemma init_switch_map_spec:
  "length (init_switch_map R C) = R
   \<and> (\<forall>r<R. length (init_switch_map R C ! r) = C)
   \<and> (\<forall>r<R. \<forall>c<C. init_switch_map R C ! r ! c = fresh_switch (r * C + c))"
proof -
  obtain grid k where f: "fold (\<lambda>r. fold (\<lambda>c. init_switch r c) [0..<C]) [0..<R]
        (replicate R (replicate C \<lparr>scancode = 0, state = UNKNOWN, sample_buffer = 0\<rparr>), 1) = (grid, k)"
    by (cases "fold (\<lambda>r. fold (\<lambda>c. init_switch r c) [0..<C]) [0..<R]
        (replicate R (replicate C \<lparr>scancode = 0, state = UNKNOWN, sample_buffer = 0\<rparr>), 1)")
  with numbered_all [of R C] have "numbered R C (R * C) (grid, k)" by simp
  then have "length grid = R" "\<forall>r<R. length (grid ! r) = C"
    "\<forall>r<R. \<forall>c<C. grid ! r ! c = fresh_switch (r * C + c)"
    using position_less [of _ C _ R] by (auto simp: numbered_def)
  moreover have "init_switch_map R C = grid" using f by (simp add: init_switch_map_def)
  ultimately show ?thesis by simp
qed

section \<open>The scanner between two calls\<close>

text \<open>
  The constructor establishes the invariant and every public method, called on a scanner
  that satisfies it, returns and keeps it.
\<close>

lemma constructed_inv:
  assumes "SwitchMatrixScanner R C N rp cp pu db = Some s"
  shows "scanner_inv s \<and> dims s = (R, C, N, db)
     \<and> (\<forall>r<R. \<forall>c<C. cell s r c = fresh_switch (r * C + c))"
proof -
  from assms have c: "R * C < ScanCodeMax - 1" "0 < R" "0 < C" "0 < N"
    and s: "s = \<lparr>row_count = R, col_count = C, event_buffer_size = N,
        m_switch_map = init_switch_map R C, m_row_pins = rp, m_col_pins = cp,
        m_switchhandler_closed = None, m_switchhandler_open = None,
        m_column_input_type = (if pu then INPUT_PULLUP else INPUT),
        m_enable_software_debounce = db,
        m_scancode_event_buffer_opened = replicate N 0,
        m_scancode_event_buffer_opened_len = 0,
        m_scancode_event_buffer_closed = replicate N 0,
        m_scancode_event_buffer_closed_len = 0\<rparr>"
    by (auto simp: SwitchMatrixScanner_def split: if_splits)
  from init_switch_map_spec [of R C]
  have g: "length (init_switch_map R C) = R" "\<forall>r<R. length (init_switch_map R C ! r) = C"
    "\<forall>r<R. \<forall>c<C. init_switch_map R C ! r ! c = fresh_switch (r * C + c)"
    by simp_all
  have "grid_ok s"
    using g(1,2) unfolding grid_ok_def s by (auto simp: in_set_conv_nth)
  moreover have "bufs_idle s" using c unfolding s by (simp add: bufs_idle_def)
  moreover have "\<forall>r<R. \<forall>c<C. cell s r c = fresh_switch (r * C + c)"
    using g(3) unfolding s by (simp add: cell_def)
  ultimately show ?thesis
    using c unfolding s by (simp add: scanner_inv_def dims_def cell_def fresh_switch_def)
qed

lemma scanned_switch_scancode [simp]: "scancode (scanned_switch d v sw) = scancode sw"
  by (simp add: scanned_switch_def latch_switch_def sample_switch_def handleSoftwareDebounce_def Let_def)

lemma sample_switch_state [simp]: "state (sample_switch d v sw) = state sw"
  by (simp add: sample_switch_def handleSoftwareDebounce_def Let_def)

lemma sample_switch_scancode [simp]: "scancode (sample_switch d v sw) = scancode sw"
  by (simp add: sample_switch_def handleSoftwareDebounce_def Let_def)

lemma scanned_switch_known: "state sw \<noteq> UNKNOWN \<Longrightarrow> state (scanned_switch d v sw) \<noteq> UNKNOWN"
  by (simp add: scanned_switch_def latch_switch_def)

lemma scanned_grid_cell:
  assumes "r < length grid" and "c < length (grid ! r)"
  shows "scanned_grid d v (length grid) grid ! r ! c = scanned_switch d (v r c) (grid ! r ! c)"
  using assms by (simp add: scanned_grid_nth scanned_row_nth)

text \<open>What one pass does, for a scanner between two calls.\<close>

lemma scan_inv:
  assumes inv: "scanner_inv s"
  shows "\<exists>es s'. scan digitalRead s = Some (es, s') \<and> scanner_inv s' \<and> config s' = config s
     \<and> (\<forall>r<row_count s. \<forall>c<col_count s.
           cell s' r c = scanned_switch (m_enable_software_debounce s) (digitalRead r c) (cell s r c))"
proof -
  from inv have idle: "bufs_idle s" and g: "grid_ok s" by (simp_all add: scanner_inv_def)
  from scan_spec [OF idle g, of digitalRead] obtain es s'
    where sc: "scan digitalRead s = Some (es, s')" and cf: "config s' = config s"
      and idle': "bufs_idle s'" and g': "grid_ok s'"
      and m: "m_switch_map s' = scanned_grid (m_enable_software_debounce s) digitalRead
                (row_count s) (m_switch_map s)"
    by blast
  from g have ml: "length (m_switch_map s) = row_count s"
    and cl: "\<And>r. r < row_count s \<Longrightarrow> length (m_switch_map s ! r) = col_count s"
    by (simp_all add: grid_ok_def)
  have cells: "\<forall>r<row_count s. \<forall>c<col_count s.
           cell s' r c = scanned_switch (m_enable_software_debounce s) (digitalRead r c) (cell s r c)"
    using m ml cl scanned_grid_cell [of _ "m_switch_map s"] by (simp add: cell_def)
  from cf have d: "row_count s' = row_count s" "col_count s' = col_count s"
    by (simp_all add: config_def)
  have "scanner_inv s'"
    using inv idle' g' cells d by (simp add: scanner_inv_def)
  with sc cf cells show ?thesis by blast
qed

lemma setup_inv:
  assumes "scanner_inv s"
  shows "scanner_inv (snd (setup_scanner hc ho s))
     \<and> dims (snd (setup_scanner hc ho s)) = dims s
     \<and> m_switch_map (snd (setup_scanner hc ho s)) = m_switch_map s"
  using assms
  by (simp add: setup_scanner_def scanner_inv_def dims_def bufs_idle_def grid_ok_def cell_def)

lemma isSwitchClosed_eq:
  "isSwitchClosed sc s =
     (if sc = 0 \<or> row_count s * col_count s < unat sc then (False, [], s)
      else (state (cell s ((unat sc - 1) div col_count s) ((unat sc - 1) mod col_count s)) = CLOSED,
            [], s))"
proof (cases "sc = 0")
  case True
  then show ?thesis by (simp add: isSwitchClosed_def)
next
  case False
  define i where "i = unat sc - 1"
  define C where "C = col_count s"
  from False have pos: "0 < unat sc" by (simp add: unat_gt_0)
  from False have i: "unat (sc - 1) = i" by (simp add: unat_minus_one i_def)
  have lt: "i < 65536" using unsigned_less [of sc, where 'a = nat] by (simp add: i_def)
  have "i div C < 65536"
    by (rule le_less_trans [OF div_le_dividend]) (rule lt)
  then have row: "unat (of_nat (i div C) :: 16 word) = i div C"
    by (simp add: unat_of_nat)
  have "i mod C < 65536"
    by (rule le_less_trans [OF mod_less_eq_dividend]) (rule lt)
  then have "unat (of_nat (i mod C) :: 16 word) = i mod C"
    by (simp add: unat_of_nat)
  moreover have "i - i div C * C = i mod C" by (simp add: minus_div_mult_eq_mod)
  ultimately have col: "unat (of_nat (i - i div C * C) :: 16 word) = i mod C" by simp
  have cond: "row_count s * C \<le> i \<longleftrightarrow> row_count s * C < unat sc"
    using pos by (auto simp: i_def)
  have "isSwitchClosed sc s =
     (if row_count s * C \<le> i then (False, [], s)
      else (state (m_switch_map s ! unat (of_nat (i div C) :: 16 word)
                     ! unat (of_nat (i - unat (of_nat (i div C) :: 16 word) * C) :: 16 word)) = CLOSED,
            [], s))"
    using False unfolding isSwitchClosed_def Let_def i C_def [symmetric] by simp
  also have "\<dots> = (if row_count s * C < unat sc then (False, [], s)
      else (state (cell s (i div C) (i mod C)) = CLOSED, [], s))"
    unfolding row col cond cell_def ..
  finally show ?thesis using False unfolding i_def C_def by simp
qed

lemma perform_inv:
  assumes "scanner_inv s"
  shows "\<exists>es s'. perform c s = Some (es, s') \<and> scanner_inv s' \<and> dims s' = dims s"
proof (cases c)
  case (Setup hc ho)
  with setup_inv [OF assms, of hc ho] show ?thesis
    by (cases "setup_scanner hc ho s") auto
next
  case (Scan rd)
  from scan_inv [OF assms, of rd] obtain es s' where
    "scan rd s = Some (es, s')" "scanner_inv s'" "config s' = config s" by blast
  with Scan show ?thesis by (auto simp: dims_def config_def)
next
  case (IsSwitchClosed sc)
  with assms show ?thesis by (simp add: isSwitchClosed_eq)
qed

lemma perform_all_inv:
  assumes "scanner_inv s"
  shows "\<exists>es s'. perform_all cs s = Some (es, s') \<and> scanner_inv s' \<and> dims s' = dims s"
  using assms
proof (induction cs arbitrary: s)
  case Nil
  then show ?case by simp
next
  case (Cons c cs)
  from perform_inv [OF Cons.prems, of c] obtain es s1 where
    p: "perform c s = Some (es, s1)" and i: "scanner_inv s1" and d: "dims s1 = dims s" by blast
  from Cons.IH [OF i] obtain es' s' where
    "perform_all cs s1 = Some (es', s')" "scanner_inv s'" "dims s' = dims s1" by blast
  with p d show ?case by simp
qed

lemma run_scanner_inv:
  assumes "run_scanner R C N rp cp pu db calls = Some (es, s)"
  shows "scanner_inv s \<and> dims s = (R, C, N, db)"
proof -
  from assms obtain s0 where c: "SwitchMatrixScanner R C N rp cp pu db = Some s0"
    and p: "perform_all calls s0 = Some (es, s)"
    by (auto simp: run_scanner_def split: option.splits)
  from constructed_inv [OF c] have "scanner_inv s0" "dims s0 = (R, C, N, db)" by simp_all
  with perform_all_inv [of s0 calls] p show ?thesis by auto
qed

section \<open>Latched states\<close>

lemma perform_cell:
  assumes inv: "scanner_inv s" and r: "r < row_count s" and c: "c < col_count s"
  shows "\<exists>es s'. perform call s = Some (es, s') \<and> scanner_inv s' \<and> dims s' = dims s
     \<and> cell s' r c = (case call of
          Scan digitalRead \<Rightarrow>
            scanned_switch (m_enable_software_debounce s) (digitalRead r c) (cell s r c)
        | _ \<Rightarrow> cell s r c)"
proof (cases call)
  case (Setup hc ho)
  with setup_inv [OF inv, of hc ho] show ?thesis
    by (cases "setup_scanner hc ho s") (auto simp: cell_def)
next
  case (Scan rd)
  from scan_inv [OF inv, of rd] r c obtain es s' where
    "scan rd s = Some (es, s')" "scanner_inv s'" "config s' = config s"
    "cell s' r c = scanned_switch (m_enable_software_debounce s) (rd r c) (cell s r c)"
    by blast
  with Scan show ?thesis by (auto simp: dims_def config_def)
next
  case (IsSwitchClosed sc)
  with inv show ?thesis by (simp add: isSwitchClosed_eq)
qed

lemma perform_all_known:
  assumes "scanner_inv s" and "r < row_count s" and "c < col_count s"
    and "state (cell s r c) \<noteq> UNKNOWN"
  shows "\<exists>es s'. perform_all cs s = Some (es, s') \<and> state (cell s' r c) \<noteq> UNKNOWN"
  using assms
proof (induction cs arbitrary: s)
  case Nil
  then show ?case by simp
next
  case (Cons call cs)
  from perform_cell [OF Cons.prems(1-3), of call] obtain es s1 where
    p: "perform call s = Some (es, s1)" and i: "scanner_inv s1" and d: "dims s1 = dims s"
    and cl: "cell s1 r c = (case call of
          Scan digitalRead \<Rightarrow>
            scanned_switch (m_enable_software_debounce s) (digitalRead r c) (cell s r c)
        | _ \<Rightarrow> cell s r c)"
    by blast
  from cl Cons.prems(4) have k: "state (cell s1 r c) \<noteq> UNKNOWN"
    by (cases call) (simp_all add: scanned_switch_known)
  from d Cons.prems(2,3) have "r < row_count s1" "c < col_count s1" by (simp_all add: dims_def)
  from Cons.IH [OF i this k] obtain es' s' where
    "perform_all cs s1 = Some (es', s')" "state (cell s' r c) \<noteq> UNKNOWN" by blast
  with p show ?case by simp
qed

text \<open>
  C8. In any sketch, once a switch has left \<^verbatim>\<open>UNKNOWN\<close> no further sequence of calls of
  \<^verbatim>\<open>setup\<close>, \<^verbatim>\<open>scan\<close> and \<^verbatim>\<open>isSwitchClosed\<close> brings it back: every such sequence runs to its
  end and leaves the switch \<^verbatim>\<open>OPEN\<close> or \<^verbatim>\<open>CLOSED\<close>.
\<close>

theorem unknown_never_reentered:
  assumes run: "run_scanner R C N row_pins column_pins pullups debounce calls = Some (es, s)"
    and r: "r < R" and c: "c < C"
    and known: "state (cell s r c) \<noteq> UNKNOWN"
  shows "\<exists>es' s'. perform_all more_calls s = Some (es', s') \<and> state (cell s' r c) \<noteq> UNKNOWN"
proof -
  from run_scanner_inv [OF run] have "scanner_inv s" "row_count s = R" "col_count s = C"
    by (simp_all add: dims_def)
  with r c known show ?thesis by (intro perform_all_known) simp_all
qed

theorem unknown_never_reentered_witness:
  "run_scanner 1 1 1 [7] [3] True False [Scan (\<lambda>r c. LOW)] \<noteq> None
   \<and> state (cell (snd (the (run_scanner 1 1 1 [7] [3] True False [Scan (\<lambda>r c. LOW)]))) 0 0) = CLOSED
   \<and> perform_all [Scan (\<lambda>r c. HIGH), IsSwitchClosed 1, Setup None None]
        (snd (the (run_scanner 1 1 1 [7] [3] True False [Scan (\<lambda>r c. LOW)]))) \<noteq> None
   \<and> state (cell (snd (the (perform_all [Scan (\<lambda>r c. HIGH), IsSwitchClosed 1, Setup None None]
        (snd (the (run_scanner 1 1 1 [7] [3] True False [Scan (\<lambda>r c. LOW)])))))) 0 0) \<noteq> UNKNOWN"
proof -
  have run: "run_scanner 1 1 1 [7] [3] True False [Scan (\<lambda>r c. LOW)]
      = Some ([PinMode 7 OUTPUT, DigitalWrite 7 LOW, DigitalRead 3, PinMode 7 INPUT],
          \<lparr>row_count = 1, col_count = 1, event_buffer_size = 1,
           m_switch_map = [[\<lparr>scancode = 1, state = CLOSED, sample_buffer = 31\<rparr>]],
           m_row_pins = [7], m_col_pins = [3], m_switchhandler_closed = None,
           m_switchhandler_open = None, m_column_input_type = INPUT_PULLUP,
           m_enable_software_debounce = False,
           m_scancode_event_buffer_opened = [0], m_scancode_event_buffer_opened_len = 0,
           m_scancode_event_buffer_closed = [1], m_scancode_event_buffer_closed_len = 0\<rparr>)"
    by code_simp
  have known: "state (cell \<lparr>row_count = 1, col_count = 1, event_buffer_size = 1,
           m_switch_map = [[\<lparr>scancode = 1, state = CLOSED, sample_buffer = 31\<rparr>]],
           m_row_pins = [7], m_col_pins = [3], m_switchhandler_closed = None,
           m_switchhandler_open = None, m_column_input_type = INPUT_PULLUP,
           m_enable_software_debounce = False,
           m_scancode_event_buffer_opened = [0], m_scancode_event_buffer_opened_len = 0,
           m_scancode_event_buffer_closed = [1], m_scancode_event_buffer_closed_len = 0\<rparr> 0 0) \<noteq> UNKNOWN"
    by (simp add: cell_def)
  from unknown_never_reentered [OF run _ _ known,
      where more_calls = "[Scan (\<lambda>r c. HIGH), IsSwitchClosed 1, Setup None None]"]
  show ?thesis unfolding run by (auto simp: cell_def)
qed

section \<open>Scancodes\<close>

lemma position_div_mod:
  assumes "0 < (C::nat)" and "i < R * C"
  shows "i div C < R" and "i mod C < C" and "i div C * C + i mod C = i"
  using assms by (simp_all add: less_mult_imp_div_less)

text \<open>
  C6. For a scanner in any state a sketch can reach and every 16-bit scancode:
  \<^verbatim>\<open>isSwitchClosed\<close> answers false for 0 and for every scancode above \<open>R * C\<close>; for a
  scancode from 1 to \<open>R * C\<close> it answers whether the switch at row \<open>(s - 1) div C\<close>, column
  \<open>(s - 1) mod C\<close> (a switch of the grid) is latched \<^verbatim>\<open>CLOSED\<close>. In both cases it performs no
  effect and leaves the scanner as it was.
\<close>

theorem isSwitchClosed_query:
  assumes run: "run_scanner R C N row_pins column_pins pullups debounce calls = Some (es, s)"
  shows "(scan_code = 0 \<or> R * C < unat scan_code \<longrightarrow> isSwitchClosed scan_code s = (False, [], s))
       \<and> (1 \<le> unat scan_code \<and> unat scan_code \<le> R * C \<longrightarrow>
            (unat scan_code - 1) div C < R \<and> (unat scan_code - 1) mod C < C
            \<and> (unat scan_code - 1) div C < length (m_switch_map s)
            \<and> (unat scan_code - 1) mod C < length (m_switch_map s ! ((unat scan_code - 1) div C))
            \<and> isSwitchClosed scan_code s
                = (state (cell s ((unat scan_code - 1) div C) ((unat scan_code - 1) mod C)) = CLOSED,
                   [], s))"
proof -
  from run_scanner_inv [OF run] have inv: "scanner_inv s"
    and d: "row_count s = R" "col_count s = C"
    by (simp_all add: dims_def)
  from inv d have C: "0 < C" and g: "length (m_switch_map s) = R"
    "\<And>r. r < R \<Longrightarrow> length (m_switch_map s ! r) = C"
    by (auto simp: scanner_inv_def grid_ok_def)
  have 1: "scan_code = 0 \<or> R * C < unat scan_code \<longrightarrow> isSwitchClosed scan_code s = (False, [], s)"
    by (simp add: isSwitchClosed_eq d)
  have 2: "1 \<le> unat scan_code \<and> unat scan_code \<le> R * C \<longrightarrow>
            (unat scan_code - 1) div C < R \<and> (unat scan_code - 1) mod C < C
            \<and> (unat scan_code - 1) div C < length (m_switch_map s)
            \<and> (unat scan_code - 1) mod C < length (m_switch_map s ! ((unat scan_code - 1) div C))
            \<and> isSwitchClosed scan_code s
                = (state (cell s ((unat scan_code - 1) div C) ((unat scan_code - 1) mod C)) = CLOSED,
                   [], s)"
  proof
    assume a: "1 \<le> unat scan_code \<and> unat scan_code \<le> R * C"
    then have i: "unat scan_code - 1 < R * C" by arith
    from a have nz: "scan_code \<noteq> 0" by auto
    note p = position_div_mod(1,2) [OF C i]
    from a nz have "isSwitchClosed scan_code s
                = (state (cell s ((unat scan_code - 1) div C) ((unat scan_code - 1) mod C)) = CLOSED,
                   [], s)"
      by (simp add: isSwitchClosed_eq d)
    with p g show "(unat scan_code - 1) div C < R \<and> (unat scan_code - 1) mod C < C
            \<and> (unat scan_code - 1) div C < length (m_switch_map s)
            \<and> (unat scan_code - 1) mod C < length (m_switch_map s ! ((unat scan_code - 1) div C))
            \<and> isSwitchClosed scan_code s
                = (state (cell s ((unat scan_code - 1) div C) ((unat scan_code - 1) mod C)) = CLOSED,
                   [], s)"
      by simp
  qed
  from 1 2 show ?thesis by (rule conjI)
qed

theorem isSwitchClosed_query_witness:
  "run_scanner 1 2 1 [7] [3, 4] True False [Scan (\<lambda>r c. if c = 1 then LOW else HIGH)] \<noteq> None
   \<and> fst (isSwitchClosed 0
        (snd (the (run_scanner 1 2 1 [7] [3, 4] True False [Scan (\<lambda>r c. if c = 1 then LOW else HIGH)]))))
       = False
   \<and> fst (isSwitchClosed 3
        (snd (the (run_scanner 1 2 1 [7] [3, 4] True False [Scan (\<lambda>r c. if c = 1 then LOW else HIGH)]))))
       = False
   \<and> fst (isSwitchClosed 1
        (snd (the (run_scanner 1 2 1 [7] [3, 4] True False [Scan (\<lambda>r c. if c = 1 then LOW else HIGH)]))))
       = False
   \<and> fst (isSwitchClosed 2
        (snd (the (run_scanner 1 2 1 [7] [3, 4] True False [Scan (\<lambda>r c. if c = 1 then LOW else HIGH)]))))
       = True"
proof -
  have run: "run_scanner 1 2 1 [7] [3, 4] True False [Scan (\<lambda>r c. if c = 1 then LOW else HIGH)]
      = Some ([PinMode 7 OUTPUT, DigitalWrite 7 LOW, DigitalRead 3, DigitalRead 4, PinMode 7 INPUT],
          \<lparr>row_count = 1, col_count = 2, event_buffer_size = 1,
           m_switch_map = [[\<lparr>scancode = 1, state = OPEN, sample_buffer = 0\<rparr>,
                            \<lparr>scancode = 2, state = CLOSED, sample_buffer = 31\<rparr>]],
           m_row_pins = [7], m_col_pins = [3, 4], m_switchhandler_closed = None,
           m_switchhandler_open = None, m_column_input_type = INPUT_PULLUP,
           m_enable_software_debounce = False,
           m_scancode_event_buffer_opened = [1], m_scancode_event_buffer_opened_len = 0,
           m_scancode_event_buffer_closed = [2], m_scancode_event_buffer_closed_len = 0\<rparr>)"
    by code_simp
  from isSwitchClosed_query [OF run, of 0] isSwitchClosed_query [OF run, of 3]
    isSwitchClosed_query [OF run, of 1] isSwitchClosed_query [OF run, of 2]
  show ?thesis unfolding run by (simp add: cell_def)
qed

text \<open>
  C7. The constructor of every grid that compiles (\<open>R > 0\<close>, \<open>C > 0\<close>, \<open>R * C\<close> below
  \<^verbatim>\<open>ScanCodeMax - 1\<close>, a positive event buffer size, pin arrays of lengths \<open>R\<close> and \<open>C\<close>)
  numbers the switches row-major: the switch at row \<open>r\<close>, column \<open>c\<close> has scancode
  \<open>r * C + c + 1\<close>, state \<^verbatim>\<open>UNKNOWN\<close> and sample buffer 0; the scancodes are exactly
  \<open>1, ..., R * C\<close>, no two switches share one; and \<^verbatim>\<open>isSwitchClosed\<close> is false for every
  scancode.
\<close>

theorem construction_numbers_switches:
  assumes R: "0 < R" and C: "0 < C" and RC: "R * C < ScanCodeMax - 1" and N: "0 < N"
    and rp: "length row_pins = R" and cp: "length column_pins = C"
  shows "\<exists>s. SwitchMatrixScanner R C N row_pins column_pins pullups debounce = Some s
     \<and> (\<forall>r<R. \<forall>c<C.
           cell s r c = \<lparr>scancode = of_nat (r * C + c + 1), state = UNKNOWN, sample_buffer = 0\<rparr>
           \<and> unat (scancode (cell s r c)) = r * C + c + 1)
     \<and> (\<lambda>(r, c). unat (scancode (cell s r c))) ` ({..<R} \<times> {..<C}) = {1..R * C}
     \<and> inj_on (\<lambda>(r, c). scancode (cell s r c)) ({..<R} \<times> {..<C})
     \<and> (\<forall>scan_code. fst (isSwitchClosed scan_code s) = False)"
proof -
  from assms obtain s where s: "SwitchMatrixScanner R C N row_pins column_pins pullups debounce = Some s"
    by (simp add: SwitchMatrixScanner_def)
  from constructed_inv [OF s] have inv: "scanner_inv s" and d: "row_count s = R" "col_count s = C"
    and fresh: "\<And>r c. r < R \<Longrightarrow> c < C \<Longrightarrow> cell s r c = fresh_switch (r * C + c)"
    by (simp_all add: dims_def)
  have un: "unat (scancode (cell s r c)) = r * C + c + 1" if "r < R" "c < C" for r c
  proof -
    have "r * C + c < R * C" using that by (intro position_less)
    with RC have "r * C + c + 1 < 65536" by (simp add: ScanCodeMax_def)
    then have b: "(r * C + c + 1) mod 2 ^ LENGTH(16) = r * C + c + 1"
      by simp
    have "scancode (cell s r c) = of_nat (r * C + c + 1)"
      unfolding fresh [OF that] fresh_switch_def by (simp only: SwitchDef.select_convs)
    then have "unat (scancode (cell s r c)) = (r * C + c + 1) mod 2 ^ LENGTH(16)"
      by (simp only: unat_of_nat)
    with b show ?thesis by (simp only:)
  qed
  have cells: "\<forall>r<R. \<forall>c<C.
           cell s r c = \<lparr>scancode = of_nat (r * C + c + 1), state = UNKNOWN, sample_buffer = 0\<rparr>
           \<and> unat (scancode (cell s r c)) = r * C + c + 1"
    using fresh un by (simp add: fresh_switch_def)
  have img: "(\<lambda>(r, c). unat (scancode (cell s r c))) ` ({..<R} \<times> {..<C}) = {1..R * C}"
  proof (intro equalityI subsetI)
    fix k assume "k \<in> (\<lambda>(r, c). unat (scancode (cell s r c))) ` ({..<R} \<times> {..<C})"
    then obtain r c where rc: "r < R" "c < C" and k: "k = unat (scancode (cell s r c))" by auto
    from position_less [OF rc(2,1)] un [OF rc] k show "k \<in> {1..R * C}" by simp
  next
    fix k assume "k \<in> {1..R * C}"
    then have k: "1 \<le> k" "k - 1 < R * C" by auto
    note p = position_div_mod [OF C k(2)]
    from un [OF p(1,2)] p(3) k(1) have "unat (scancode (cell s ((k - 1) div C) ((k - 1) mod C))) = k"
      by simp
    with p(1,2) show "k \<in> (\<lambda>(r, c). unat (scancode (cell s r c))) ` ({..<R} \<times> {..<C})"
      by (intro image_eqI [where x = "((k - 1) div C, (k - 1) mod C)"]) auto
  qed
  have inj: "inj_on (\<lambda>(r, c). scancode (cell s r c)) ({..<R} \<times> {..<C})"
  proof (rule inj_onI)
    fix x y assume x: "x \<in> {..<R} \<times> {..<C}" and y: "y \<in> {..<R} \<times> {..<C}"
      and e: "(case x of (r, c) \<Rightarrow> scancode (cell s r c)) = (case y of (r, c) \<Rightarrow> scancode (cell s r c))"
    obtain r c r' c' where xy: "x = (r, c)" "y = (r', c')" by (cases x, cases y)
    with x y have b: "r < R" "c < C" "r' < R" "c' < C" by auto
    from e xy have "unat (scancode (cell s r c)) = unat (scancode (cell s r' c'))" by simp
    with un b have "r * C + c = r' * C + c'" by simp
    with position_eq [OF b(4) b(2), of r r'] xy show "x = y" by simp
  qed
  have closed: "fst (isSwitchClosed scan_code s) = False" for scan_code
  proof (cases "scan_code = 0 \<or> R * C < unat scan_code")
    case True
    then show ?thesis by (simp add: isSwitchClosed_eq d)
  next
    case False
    then have "0 < unat scan_code" "unat scan_code \<le> R * C" by (simp_all add: unat_gt_0)
    then have i: "unat scan_code - 1 < R * C" by arith
    note p = position_div_mod(1,2) [OF C i]
    from fresh [OF p] False show ?thesis
      by (simp add: isSwitchClosed_eq d fresh_switch_def)
  qed
  from s cells img inj closed show ?thesis by blast
qed

theorem construction_numbers_switches_witness:
  "SwitchMatrixScanner 2 3 10 [7, 8] [3, 4, 5] True True \<noteq> None
   \<and> cell (the (SwitchMatrixScanner 2 3 10 [7, 8] [3, 4, 5] True True)) 1 2
       = \<lparr>scancode = 6, state = UNKNOWN, sample_buffer = 0\<rparr>
   \<and> cell (the (SwitchMatrixScanner 2 3 10 [7, 8] [3, 4, 5] True True)) 0 0
       = \<lparr>scancode = 1, state = UNKNOWN, sample_buffer = 0\<rparr>
   \<and> fst (isSwitchClosed 6 (the (SwitchMatrixScanner 2 3 10 [7, 8] [3, 4, 5] True True))) = False"
proof -
  have h: "0 < (2::nat)" "0 < (3::nat)" "(2::nat) * 3 < ScanCodeMax - 1" "0 < (10::nat)"
    "length [7, 8 :: 8 word] = 2" "length [3, 4, 5 :: 8 word] = 3"
    by (simp_all add: ScanCodeMax_def)
  from construction_numbers_switches [OF h, of True True]
  obtain s where s: "SwitchMatrixScanner 2 3 10 [7, 8] [3, 4, 5] True True = Some s"
    and cells: "\<forall>r<2. \<forall>c<3.
           cell s r c = \<lparr>scancode = of_nat (r * 3 + c + 1), state = UNKNOWN, sample_buffer = 0\<rparr>
           \<and> unat (scancode (cell s r c)) = r * 3 + c + 1"
    and q: "\<forall>scan_code. fst (isSwitchClosed scan_code s) = False"
    by blast
  from cells have "cell s 1 2 = \<lparr>scancode = 6, state = UNKNOWN, sample_buffer = 0\<rparr>"
    "cell s 0 0 = \<lparr>scancode = 1, state = UNKNOWN, sample_buffer = 0\<rparr>"
    by simp_all
  with s q show ?thesis by simp
qed

section \<open>Transitions and the settle period\<close>

lemma reset_byte:
  "\<forall>b. settle_count_of (word_of_int (uint DebounceSampleMask AND uint b)) = 0
     \<and> sample_window (word_of_int (uint DebounceSampleMask AND uint b)) = sample_window b"
  unfolding all_byte by code_simp

lemma window_byte:
  "\<forall>b. (is_closed DebounceSampleMask b \<longleftrightarrow> sample_window b = DebounceSampleMask)
     \<and> (is_open DebounceSampleMask b \<longleftrightarrow> sample_window b = 0)"
  unfolding all_byte by code_simp

lemma mask_nonzero: "DebounceSampleMask \<noteq> 0"
  by code_simp

lemma latch_switch_transition:
  assumes "state (latch_switch x) \<noteq> state x"
  shows "settling 0 (latch_switch x)"
  using assms reset_byte window_byte
  by (auto simp: latch_switch_def settling_def reset_sample_count_def split: if_splits)

lemma scanned_switch_transition:
  assumes "state (scanned_switch d v sw) \<noteq> state sw"
  shows "settling 0 (scanned_switch d v sw)"
proof -
  from assms have "state (latch_switch (sample_switch d v sw)) \<noteq> state (sample_switch d v sw)"
    by (simp add: scanned_switch_def)
  then show ?thesis unfolding scanned_switch_def by (rule latch_switch_transition)
qed

lemma small_settle_count:
  assumes "k < 4"
  shows "(of_nat k :: 8 word) < DebounceSettleCount"
proof -
  from assms have "k = 0 \<or> k = 1 \<or> k = 2 \<or> k = 3" by arith
  then show ?thesis by (auto simp: DebounceSettleCount_def)
qed

lemma settling_step:
  assumes k: "k < 4" and s: "settling k sw"
  shows "settling (Suc k) (scanned_switch True v sw)
     \<and> state (scanned_switch True v sw) = state sw"
proof -
  let ?b = "sample_buffer sw"
  let ?b' = "debounce_byte ?b (v = LOW)"
  from s have sc: "settle_count_of ?b = of_nat k" by (simp add: settling_def)
  with small_settle_count [OF k] have "settle_count_of ?b < DebounceSettleCount" by simp
  with debounce_byte_settling have b': "settle_count_of ?b' = settle_count_of ?b + 1"
    "sample_window ?b' = sample_window ?b"
    by simp_all
  have x: "sample_switch True v sw = sw\<lparr>sample_buffer := ?b'\<rparr>"
    by (simp add: sample_switch_def handleSoftwareDebounce_byte)
  from s b' window_byte mask_nonzero
  have l: "latch_switch (sw\<lparr>sample_buffer := ?b'\<rparr>) = sw\<lparr>sample_buffer := ?b'\<rparr>"
    by (auto simp: latch_switch_def settling_def)
  from s b' sc show ?thesis
    by (auto simp: scanned_switch_def x l settling_def)
qed

lemma settling_scans:
  assumes "scanner_inv s" and "m_enable_software_debounce s"
    and "r < row_count s" and "c < col_count s"
    and "settling k (cell s r c)" and "k + length reads \<le> 4"
  shows "\<exists>es s'. perform_all (map Scan reads) s = Some (es, s')
     \<and> state (cell s' r c) = state (cell s r c)
     \<and> settling (k + length reads) (cell s' r c)"
  using assms
proof (induction reads arbitrary: s k)
  case Nil
  then show ?case by simp
next
  case (Cons rd reads)
  from Cons.prems(6) have k: "k < 4" and k': "Suc k + length reads \<le> 4" by simp_all
  from perform_cell [OF Cons.prems(1,3,4), of "Scan rd"] Cons.prems(2)
  obtain es s1 where p: "perform (Scan rd) s = Some (es, s1)" and i: "scanner_inv s1"
    and d: "dims s1 = dims s"
    and cl: "cell s1 r c = scanned_switch True (rd r c) (cell s r c)"
    by auto
  from settling_step [OF k Cons.prems(5), of "rd r c"] cl
  have st: "settling (Suc k) (cell s1 r c)" and same: "state (cell s1 r c) = state (cell s r c)"
    by simp_all
  from d Cons.prems(2,3,4) have "m_enable_software_debounce s1" "r < row_count s1" "c < col_count s1"
    by (simp_all add: dims_def)
  from Cons.IH [OF i this st k'] obtain es' s' where
    "perform_all (map Scan reads) s1 = Some (es', s')"
    "state (cell s' r c) = state (cell s1 r c)"
    "settling (Suc k + length reads) (cell s' r c)" by blast
  with p same show ?case by simp
qed

text \<open>
  C10. Software debounce enabled: when a pass changes the latched state of a switch, to
  \<^verbatim>\<open>CLOSED\<close> or to \<^verbatim>\<open>OPEN\<close>, the transition leaves the settle counter of the switch at 0,
  below \<^verbatim>\<open>DebounceSettleCount\<close>, and its sample window uniform in the direction of the state
  it latched (all ones after closing, all zeros after opening). Any further one, two,
  three or four passes, whatever the pins read, then run to their end and leave that
  switch in the state the transition latched: they only count the settle counter up, by
  one each, and leave the window as it is.
\<close>

theorem no_transition_while_settling:
  assumes run: "run_scanner R C N row_pins column_pins pullups True calls = Some (es, s)"
    and r: "r < R" and c: "c < C"
    and pass: "scan digitalRead s = Some (es1, s1)"
    and transition: "state (cell s1 r c) \<noteq> state (cell s r c)"
    and four: "length reads \<le> 4"
  shows "settle_count_of (sample_buffer (cell s1 r c)) = 0
     \<and> settle_count_of (sample_buffer (cell s1 r c)) < DebounceSettleCount
     \<and> (state (cell s1 r c) = CLOSED
           \<and> sample_window (sample_buffer (cell s1 r c)) = DebounceSampleMask
         \<or> state (cell s1 r c) = OPEN \<and> sample_window (sample_buffer (cell s1 r c)) = 0)
     \<and> (\<exists>es' s'. perform_all (map Scan reads) s1 = Some (es', s')
           \<and> state (cell s' r c) = state (cell s1 r c)
           \<and> settle_count_of (sample_buffer (cell s' r c)) = of_nat (length reads)
           \<and> sample_window (sample_buffer (cell s' r c))
               = sample_window (sample_buffer (cell s1 r c)))"
proof -
  from run_scanner_inv [OF run] have inv: "scanner_inv s"
    and d: "row_count s = R" "col_count s = C" "m_enable_software_debounce s"
    by (simp_all add: dims_def)
  from scan_inv [OF inv, of digitalRead] pass r c d
  have inv1: "scanner_inv s1" and cf: "config s1 = config s"
    and cl: "cell s1 r c = scanned_switch True (digitalRead r c) (cell s r c)"
    by auto
  from transition cl have s0: "settling 0 (cell s1 r c)"
    by (simp add: scanned_switch_transition)
  from cf d r c have "m_enable_software_debounce s1" "r < row_count s1" "c < col_count s1"
    by (simp_all add: config_def)
  from settling_scans [OF inv1 this s0, of reads] four
  obtain es' s' where p: "perform_all (map Scan reads) s1 = Some (es', s')"
    and same: "state (cell s' r c) = state (cell s1 r c)"
    and sk: "settling (length reads) (cell s' r c)"
    by auto
  from s0 have a: "settle_count_of (sample_buffer (cell s1 r c)) = 0"
    and b: "state (cell s1 r c) = CLOSED
           \<and> sample_window (sample_buffer (cell s1 r c)) = DebounceSampleMask
         \<or> state (cell s1 r c) = OPEN \<and> sample_window (sample_buffer (cell s1 r c)) = 0"
    by (simp_all add: settling_def)
  from a have a': "settle_count_of (sample_buffer (cell s1 r c)) < DebounceSettleCount"
    by (simp add: DebounceSettleCount_def)
  from sk have k: "settle_count_of (sample_buffer (cell s' r c)) = of_nat (length reads)"
    by (simp add: settling_def)
  from sk b same have w: "sample_window (sample_buffer (cell s' r c))
               = sample_window (sample_buffer (cell s1 r c))"
    by (auto simp: settling_def)
  from a a' b p same k w show ?thesis by blast
qed

theorem no_transition_while_settling_witness:
  "run_scanner 1 1 1 [7] [3] True True (Setup (Some 1) (Some 2) # map Scan (replicate 9 pressed))
      \<noteq> None
   \<and> cell (snd (the (run_scanner 1 1 1 [7] [3] True True
        (Setup (Some 1) (Some 2) # map Scan (replicate 9 pressed))))) 0 0
       = \<lparr>scancode = 1, state = OPEN, sample_buffer = 0x8F\<rparr>
   \<and> scan pressed (snd (the (run_scanner 1 1 1 [7] [3] True True
        (Setup (Some 1) (Some 2) # map Scan (replicate 9 pressed))))) \<noteq> None
   \<and> cell (snd (the (scan pressed (snd (the (run_scanner 1 1 1 [7] [3] True True
        (Setup (Some 1) (Some 2) # map Scan (replicate 9 pressed)))))))) 0 0
       = \<lparr>scancode = 1, state = CLOSED, sample_buffer = 0x1F\<rparr>
   \<and> settle_count_of 0x1F = 0 \<and> sample_window 0x1F = DebounceSampleMask
   \<and> perform_all (map Scan [released, released, released, released])
        (snd (the (scan pressed (snd (the (run_scanner 1 1 1 [7] [3] True True
          (Setup (Some 1) (Some 2) # map Scan (replicate 9 pressed)))))))) \<noteq> None
   \<and> cell (snd (the (perform_all (map Scan [released, released, released, released])
        (snd (the (scan pressed (snd (the (run_scanner 1 1 1 [7] [3] True True
          (Setup (Some 1) (Some 2) # map Scan (replicate 9 pressed))))))))))) 0 0
       = \<lparr>scancode = 1, state = CLOSED, sample_buffer = 0x9F\<rparr>
   \<and> settle_count_of 0x9F = 4 \<and> sample_window 0x9F = DebounceSampleMask"
proof -
  define s0 where "s0 = \<lparr>row_count = 1, col_count = 1, event_buffer_size = 1,
      m_switch_map = [[\<lparr>scancode = 1, state = OPEN, sample_buffer = 0x8F\<rparr>]],
      m_row_pins = [7], m_col_pins = [3], m_switchhandler_closed = Some 1,
      m_switchhandler_open = Some 2, m_column_input_type = INPUT_PULLUP,
      m_enable_software_debounce = True,
      m_scancode_event_buffer_opened = [1], m_scancode_event_buffer_opened_len = 0,
      m_scancode_event_buffer_closed = [0], m_scancode_event_buffer_closed_len = 0\<rparr>"
  define s1 where "s1 = \<lparr>row_count = 1, col_count = 1, event_buffer_size = 1,
      m_switch_map = [[\<lparr>scancode = 1, state = CLOSED, sample_buffer = 0x1F\<rparr>]],
      m_row_pins = [7], m_col_pins = [3], m_switchhandler_closed = Some 1,
      m_switchhandler_open = Some 2, m_column_input_type = INPUT_PULLUP,
      m_enable_software_debounce = True,
      m_scancode_event_buffer_opened = [1], m_scancode_event_buffer_opened_len = 0,
      m_scancode_event_buffer_closed = [1], m_scancode_event_buffer_closed_len = 0\<rparr>"
  have run: "run_scanner 1 1 1 [7] [3] True True
        (Setup (Some 1) (Some 2) # map Scan (replicate 9 pressed))
      = Some ([PinMode 7 INPUT, PinMode 3 INPUT_PULLUP,
               PinMode 7 OUTPUT, DigitalWrite 7 LOW, DigitalRead 3, SwitchOpenCall 2 [1] 1,
               PinMode 7 INPUT,
               PinMode 7 OUTPUT, DigitalWrite 7 LOW, DigitalRead 3, PinMode 7 INPUT,
               PinMode 7 OUTPUT, DigitalWrite 7 LOW, DigitalRead 3, PinMode 7 INPUT,
               PinMode 7 OUTPUT, DigitalWrite 7 LOW, DigitalRead 3, PinMode 7 INPUT,
               PinMode 7 OUTPUT, DigitalWrite 7 LOW, DigitalRead 3, PinMode 7 INPUT,
               PinMode 7 OUTPUT, DigitalWrite 7 LOW, DigitalRead 3, PinMode 7 INPUT,
               PinMode 7 OUTPUT, DigitalWrite 7 LOW, DigitalRead 3, PinMode 7 INPUT,
               PinMode 7 OUTPUT, DigitalWrite 7 LOW, DigitalRead 3, PinMode 7 INPUT,
               PinMode 7 OUTPUT, DigitalWrite 7 LOW, DigitalRead 3, PinMode 7 INPUT], s0)"
    unfolding s0_def by code_simp
  have pass: "scan pressed s0
      = Some ([PinMode 7 OUTPUT, DigitalWrite 7 LOW, DigitalRead 3, SwitchClosedCall 1 [1] 1,
               PinMode 7 INPUT], s1)"
    unfolding s0_def s1_def by code_simp
  have c0: "cell s0 0 0 = \<lparr>scancode = 1, state = OPEN, sample_buffer = 0x8F\<rparr>"
    and c1: "cell s1 0 0 = \<lparr>scancode = 1, state = CLOSED, sample_buffer = 0x1F\<rparr>"
    by (simp_all add: s0_def s1_def cell_def)
  have tr: "state (cell s1 0 0) \<noteq> state (cell s0 0 0)"
    by (simp add: c0 c1)
  have four: "length [released, released, released, released] \<le> 4" by simp
  from no_transition_while_settling [OF run _ _ pass tr four]
  obtain es' s' where p: "perform_all (map Scan [released, released, released, released]) s1 = Some (es', s')"
    and st: "state (cell s' 0 0) = state (cell s1 0 0)"
    and a: "settle_count_of (sample_buffer (cell s1 0 0)) = 0"
    and w: "sample_window (sample_buffer (cell s1 0 0)) = DebounceSampleMask"
    and k: "settle_count_of (sample_buffer (cell s' 0 0))
              = of_nat (length [released, released, released, released])"
    and w': "sample_window (sample_buffer (cell s' 0 0)) = sample_window (sample_buffer (cell s1 0 0))"
    by (auto simp: c1)
  have fin: "perform_all (map Scan [released, released, released, released]) s1
      = Some ([PinMode 7 OUTPUT, DigitalWrite 7 LOW, DigitalRead 3, PinMode 7 INPUT,
               PinMode 7 OUTPUT, DigitalWrite 7 LOW, DigitalRead 3, PinMode 7 INPUT,
               PinMode 7 OUTPUT, DigitalWrite 7 LOW, DigitalRead 3, PinMode 7 INPUT,
               PinMode 7 OUTPUT, DigitalWrite 7 LOW, DigitalRead 3, PinMode 7 INPUT],
              s1\<lparr>m_switch_map := [[\<lparr>scancode = 1, state = CLOSED, sample_buffer = 0x9F\<rparr>]]\<rparr>)"
    unfolding s1_def by code_simp
  from p fin have s': "s' = s1\<lparr>m_switch_map := [[\<lparr>scancode = 1, state = CLOSED, sample_buffer = 0x9F\<rparr>]]\<rparr>"
    by simp
  have c2: "cell s' 0 0 = \<lparr>scancode = 1, state = CLOSED, sample_buffer = 0x9F\<rparr>"
    unfolding s' by (simp add: cell_def)
  have e0: "snd (the (run_scanner 1 1 1 [7] [3] True True
        (Setup (Some 1) (Some 2) # map Scan (replicate 9 pressed)))) = s0"
    by (simp only: run option.sel snd_conv)
  have e1: "snd (the (scan pressed s0)) = s1"
    by (simp only: pass option.sel snd_conv)
  have e2: "snd (the (perform_all (map Scan [released, released, released, released]) s1)) = s'"
    by (simp only: p option.sel snd_conv)
  from a have a': "settle_count_of (31 :: 8 word) = 0" by (simp add: c1)
  from w have w1: "sample_window (31 :: 8 word) = DebounceSampleMask" by (simp add: c1)
  from k have k': "settle_count_of (159 :: 8 word) = 4" by (simp add: c2)
  from w' w have w2: "sample_window (159 :: 8 word) = DebounceSampleMask" by (simp add: c1 c2)
  show ?thesis
    apply (simp only: e0)
    apply (simp only: e1)
    apply (simp only: e2)
    apply (simp only: run pass p c0 c1 c2 a' w1 k' w2)
    apply simp
    done
qed

text \<open>
  C5 as the code has it. When \<^verbatim>\<open>handleSwitchState\<close> finds the sample window all ones on a
  switch that is not \<^verbatim>\<open>CLOSED\<close> (and the closed buffer has room, as it always has during a
  pass), it latches \<^verbatim>\<open>CLOSED\<close>, writes the scancode at the buffer's count and increments
  the count, reports a pending event, and stores \<^verbatim>\<open>reset_sample_count\<close>: the settle counter
  is cleared to 0, which restarts the settle period, while the five window bits are kept
  as they are, all ones (the byte is \<open>0x1F\<close>).
\<close>

theorem closing_transition:
  assumes closed: "is_closed DebounceSampleMask (sample_buffer swtch)"
    and not_latched: "state swtch \<noteq> CLOSED"
    and room: "m_scancode_event_buffer_closed_len s < event_buffer_size s"
  shows "\<exists>swtch' s'. handleSwitchState swtch s = Some (True, swtch', s')
     \<and> state swtch' = CLOSED \<and> scancode swtch' = scancode swtch
     \<and> m_scancode_event_buffer_closed s'
         = (m_scancode_event_buffer_closed s)[m_scancode_event_buffer_closed_len s := scancode swtch]
     \<and> m_scancode_event_buffer_closed_len s' = m_scancode_event_buffer_closed_len s + 1
     \<and> settle_count_of (sample_buffer swtch') = 0
     \<and> sample_window (sample_buffer swtch') = sample_window (sample_buffer swtch)
     \<and> sample_window (sample_buffer swtch') = DebounceSampleMask
     \<and> sample_buffer swtch' = 0x1F"
proof -
  from closed window_byte have w: "sample_window (sample_buffer swtch) = DebounceSampleMask"
    by simp
  have r: "settle_count_of (reset_sample_count swtch) = 0"
    "sample_window (reset_sample_count swtch) = sample_window (sample_buffer swtch)"
    using reset_byte by (simp_all add: reset_sample_count_def)
  have "reset_sample_count swtch = sample_window (sample_buffer swtch)"
    by (simp add: reset_sample_count_def sample_window_def)
  with w have b: "reset_sample_count swtch = 0x1F"
    by (simp add: DebounceSampleMask_def DebounceSampleBits_def)
  from assms r w b show ?thesis
    by (simp add: handleSwitchState_def)
qed

theorem closing_transition_witness:
  "is_closed DebounceSampleMask 0x9F
   \<and> handleSwitchState \<lparr>scancode = 5, state = OPEN, sample_buffer = 0x9F\<rparr>
        \<lparr>row_count = 1, col_count = 1, event_buffer_size = 2,
         m_switch_map = [[\<lparr>scancode = 5, state = OPEN, sample_buffer = 0x9F\<rparr>]],
         m_row_pins = [7], m_col_pins = [3], m_switchhandler_closed = None,
         m_switchhandler_open = None, m_column_input_type = INPUT_PULLUP,
         m_enable_software_debounce = True,
         m_scancode_event_buffer_opened = [0, 0], m_scancode_event_buffer_opened_len = 0,
         m_scancode_event_buffer_closed = [4, 0], m_scancode_event_buffer_closed_len = 1\<rparr>
     = Some (True, \<lparr>scancode = 5, state = CLOSED, sample_buffer = 0x1F\<rparr>,
        \<lparr>row_count = 1, col_count = 1, event_buffer_size = 2,
         m_switch_map = [[\<lparr>scancode = 5, state = OPEN, sample_buffer = 0x9F\<rparr>]],
         m_row_pins = [7], m_col_pins = [3], m_switchhandler_closed = None,
         m_switchhandler_open = None, m_column_input_type = INPUT_PULLUP,
         m_enable_software_debounce = True,
         m_scancode_event_buffer_opened = [0, 0], m_scancode_event_buffer_opened_len = 0,
         m_scancode_event_buffer_closed = [4, 5], m_scancode_event_buffer_closed_len = 2\<rparr>)"
proof -
  have c: "is_closed DebounceSampleMask (sample_buffer \<lparr>scancode = 5, state = OPEN, sample_buffer = 0x9F\<rparr>)"
    by code_simp
  have n: "state \<lparr>scancode = 5, state = OPEN, sample_buffer = 0x9F :: 8 word\<rparr> \<noteq> CLOSED"
    by simp
  from closing_transition [OF c n, of "\<lparr>row_count = 1, col_count = 1, event_buffer_size = 2,
         m_switch_map = [[\<lparr>scancode = 5, state = OPEN, sample_buffer = 0x9F\<rparr>]],
         m_row_pins = [7], m_col_pins = [3], m_switchhandler_closed = None,
         m_switchhandler_open = None, m_column_input_type = INPUT_PULLUP,
         m_enable_software_debounce = True,
         m_scancode_event_buffer_opened = [0, 0], m_scancode_event_buffer_opened_len = 0,
         m_scancode_event_buffer_closed = [4, 0], m_scancode_event_buffer_closed_len = 1\<rparr>"] c
  show ?thesis by (auto simp: handleSwitchState_def reset_sample_count_def
      DebounceSampleMask_def DebounceSampleBits_def)
qed

theorem closing_window_reset_counterexample:
  "handleSwitchState \<lparr>scancode = 5, state = OPEN, sample_buffer = 0x9F\<rparr>
        \<lparr>row_count = 1, col_count = 1, event_buffer_size = 2,
         m_switch_map = [[\<lparr>scancode = 5, state = OPEN, sample_buffer = 0x9F\<rparr>]],
         m_row_pins = [7], m_col_pins = [3], m_switchhandler_closed = None,
         m_switchhandler_open = None, m_column_input_type = INPUT_PULLUP,
         m_enable_software_debounce = True,
         m_scancode_event_buffer_opened = [0, 0], m_scancode_event_buffer_opened_len = 0,
         m_scancode_event_buffer_closed = [4, 0], m_scancode_event_buffer_closed_len = 1\<rparr>
     = Some (True, \<lparr>scancode = 5, state = CLOSED, sample_buffer = 0x1F\<rparr>,
        \<lparr>row_count = 1, col_count = 1, event_buffer_size = 2,
         m_switch_map = [[\<lparr>scancode = 5, state = OPEN, sample_buffer = 0x9F\<rparr>]],
         m_row_pins = [7], m_col_pins = [3], m_switchhandler_closed = None,
         m_switchhandler_open = None, m_column_input_type = INPUT_PULLUP,
         m_enable_software_debounce = True,
         m_scancode_event_buffer_opened = [0, 0], m_scancode_event_buffer_opened_len = 0,
         m_scancode_event_buffer_closed = [4, 5], m_scancode_event_buffer_closed_len = 2\<rparr>)
   \<and> sample_window 0x1F \<noteq> 0"
  by code_simp

section \<open>Handler calls\<close>

lemma deliveries_counts:
  "list_all (handler_count_ok N) es \<longleftrightarrow>
     (\<forall>(h, n, p)\<in>set (closed_deliveries es). 1 \<le> n \<and> n \<le> N)
     \<and> (\<forall>(h, n, p)\<in>set (opened_deliveries es). 1 \<le> n \<and> n \<le> N)"
proof (induction es)
  case Nil
  then show ?case by simp
next
  case (Cons e es)
  then show ?case by (cases e) auto
qed

lemma final_delivery_counts:
  assumes "length pend < N"
  shows "\<forall>(h, n, p)\<in>set (final_delivery ho pend). 1 \<le> n \<and> n \<le> N"
  using assms by (cases pend) (auto simp: final_delivery_def split: option.splits)

lemma scan_counts:
  assumes inv: "scanner_inv s" and sc: "scan digitalRead s = Some (es, s')"
  shows "list_all (handler_count_ok (event_buffer_size s)) es"
proof -
  let ?N = "event_buffer_size s"
  from inv have idle: "bufs_idle s" and g: "grid_ok s" by (simp_all add: scanner_inv_def)
  from idle have N: "0 < ?N" by (simp add: bufs_idle_def)
  from scan_spec_split [OF idle g, of digitalRead] sc obtain es_loop t es_end evc evo
    where es: "es = es_loop @ es_end"
      and ce: "closed_deliveries es_end = final_delivery (m_switchhandler_closed s) (pending_closed t)"
      and pc: "length (pending_closed t) < ?N"
      and fc: "flow ?N (m_switchhandler_closed s) [] (closed_deliveries es_loop) (pending_closed t) evc"
      and oe: "opened_deliveries es_end = final_delivery (m_switchhandler_open s) (pending_opened t)"
      and po: "length (pending_opened t) < ?N"
      and fo: "flow ?N (m_switchhandler_open s) [] (opened_deliveries es_loop) (pending_opened t) evo"
    by auto
  from flow_final_counts [OF fc N pc] final_delivery_counts [OF pc, of "m_switchhandler_closed s"]
  have "\<forall>(h, n, p)\<in>set (closed_deliveries es). 1 \<le> n \<and> n \<le> ?N"
    unfolding es by (auto simp: ce)
  moreover from flow_final_counts [OF fo N po] final_delivery_counts [OF po, of "m_switchhandler_open s"]
  have "\<forall>(h, n, p)\<in>set (opened_deliveries es). 1 \<le> n \<and> n \<le> ?N"
    unfolding es by (auto simp: oe)
  ultimately show ?thesis by (simp only: deliveries_counts)
qed

lemma perform_counts:
  assumes inv: "scanner_inv s" and p: "perform c s = Some (es, s')"
  shows "list_all (handler_count_ok (event_buffer_size s)) es"
proof (cases c)
  case (Setup hc ho)
  with p have "es = fst (setup_scanner hc ho s)" by auto
  then show ?thesis by (auto simp: setup_scanner_def list_all_iff)
next
  case (Scan rd)
  with p scan_counts [OF inv] show ?thesis by simp
next
  case (IsSwitchClosed sc)
  with p show ?thesis by (auto simp: isSwitchClosed_eq split: if_splits)
qed

lemma perform_all_counts:
  assumes "scanner_inv s" and "perform_all cs s = Some (es, s')"
  shows "list_all (handler_count_ok (event_buffer_size s)) es"
  using assms
proof (induction cs arbitrary: s es)
  case Nil
  then show ?case by simp
next
  case (Cons c cs)
  from perform_inv [OF Cons.prems(1), of c] obtain es1 s1 where
    p: "perform c s = Some (es1, s1)" and i: "scanner_inv s1" and d: "dims s1 = dims s" by blast
  with Cons.prems(2) obtain es2 where p2: "perform_all cs s1 = Some (es2, s')"
    and es: "es = es1 @ es2"
    by (auto split: option.splits)
  from d have "event_buffer_size s1 = event_buffer_size s" by (simp add: dims_def)
  with Cons.IH [OF i p2] perform_counts [OF Cons.prems(1) p] es show ?case by simp
qed

text \<open>
  C9. Every sketch on a grid that compiles (construction, then any calls of \<^verbatim>\<open>setup\<close>,
  \<^verbatim>\<open>scan\<close> and \<^verbatim>\<open>isSwitchClosed\<close>) runs to its end, and every call of the closed handler
  and of the open handler in it, from a mid-pass flush or from the flush at the end of a
  pass, has a count argument of at least 1 and at most \<^verbatim>\<open>EVENT_BUFFER_SIZE\<close>.
\<close>

theorem handler_count_bounds:
  assumes R: "0 < R" and C: "0 < C" and RC: "R * C < ScanCodeMax - 1" and N: "0 < N"
    and rp: "length row_pins = R" and cp: "length column_pins = C"
  shows "\<exists>es s. run_scanner R C N row_pins column_pins pullups debounce calls = Some (es, s)
     \<and> list_all (handler_count_ok N) es"
proof -
  from assms obtain s0 where
    c: "SwitchMatrixScanner R C N row_pins column_pins pullups debounce = Some s0"
    by (simp add: SwitchMatrixScanner_def)
  from constructed_inv [OF c] have i: "scanner_inv s0" and n: "event_buffer_size s0 = N"
    by (simp_all add: dims_def)
  from perform_all_inv [OF i, of calls] obtain es s where
    p: "perform_all calls s0 = Some (es, s)" by blast
  from perform_all_counts [OF i p] n have "list_all (handler_count_ok N) es" by simp
  with c p show ?thesis by (simp add: run_scanner_def)
qed

theorem handler_count_bounds_witness:
  "run_scanner 1 3 2 [7] [3, 4, 5] True False [Setup (Some 1) (Some 2), Scan pressed]
     = Some ([PinMode 7 INPUT, PinMode 3 INPUT_PULLUP, PinMode 4 INPUT_PULLUP, PinMode 5 INPUT_PULLUP,
              PinMode 7 OUTPUT, DigitalWrite 7 LOW, DigitalRead 3, DigitalRead 4,
              SwitchClosedCall 1 [1, 2] 2, DigitalRead 5, PinMode 7 INPUT,
              SwitchClosedCall 1 [3, 2] 1],
         \<lparr>row_count = 1, col_count = 3, event_buffer_size = 2,
          m_switch_map = [[\<lparr>scancode = 1, state = CLOSED, sample_buffer = 31\<rparr>,
                           \<lparr>scancode = 2, state = CLOSED, sample_buffer = 31\<rparr>,
                           \<lparr>scancode = 3, state = CLOSED, sample_buffer = 31\<rparr>]],
          m_row_pins = [7], m_col_pins = [3, 4, 5], m_switchhandler_closed = Some 1,
          m_switchhandler_open = Some 2, m_column_input_type = INPUT_PULLUP,
          m_enable_software_debounce = False,
          m_scancode_event_buffer_opened = [0, 0], m_scancode_event_buffer_opened_len = 0,
          m_scancode_event_buffer_closed = [3, 2], m_scancode_event_buffer_closed_len = 0\<rparr>)
   \<and> list_all (handler_count_ok 2)
        [PinMode 7 INPUT, PinMode 3 INPUT_PULLUP, PinMode 4 INPUT_PULLUP, PinMode 5 INPUT_PULLUP,
         PinMode 7 OUTPUT, DigitalWrite 7 LOW, DigitalRead 3, DigitalRead 4,
         SwitchClosedCall 1 [1, 2] 2, DigitalRead 5, PinMode 7 INPUT,
         SwitchClosedCall 1 [3, 2] 1]"
proof -
  have run: "run_scanner 1 3 2 [7] [3, 4, 5] True False [Setup (Some 1) (Some 2), Scan pressed]
     = Some ([PinMode 7 INPUT, PinMode 3 INPUT_PULLUP, PinMode 4 INPUT_PULLUP, PinMode 5 INPUT_PULLUP,
              PinMode 7 OUTPUT, DigitalWrite 7 LOW, DigitalRead 3, DigitalRead 4,
              SwitchClosedCall 1 [1, 2] 2, DigitalRead 5, PinMode 7 INPUT,
              SwitchClosedCall 1 [3, 2] 1],
         \<lparr>row_count = 1, col_count = 3, event_buffer_size = 2,
          m_switch_map = [[\<lparr>scancode = 1, state = CLOSED, sample_buffer = 31\<rparr>,
                           \<lparr>scancode = 2, state = CLOSED, sample_buffer = 31\<rparr>,
                           \<lparr>scancode = 3, state = CLOSED, sample_buffer = 31\<rparr>]],
          m_row_pins = [7], m_col_pins = [3, 4, 5], m_switchhandler_closed = Some 1,
          m_switchhandler_open = Some 2, m_column_input_type = INPUT_PULLUP,
          m_enable_software_debounce = False,
          m_scancode_event_buffer_opened = [0, 0], m_scancode_event_buffer_opened_len = 0,
          m_scancode_event_buffer_closed = [3, 2], m_scancode_event_buffer_closed_len = 0\<rparr>)"
    by code_simp
  have h: "0 < (1::nat)" "0 < (3::nat)" "(1::nat) * 3 < ScanCodeMax - 1" "0 < (2::nat)"
    "length [7 :: 8 word] = 1" "length [3, 4, 5 :: 8 word] = 3"
    by (simp_all add: ScanCodeMax_def)
  from handler_count_bounds [OF h, of True False "[Setup (Some 1) (Some 2), Scan pressed]"]
  obtain es s where
    r: "run_scanner 1 3 2 [7] [3, 4, 5] True False [Setup (Some 1) (Some 2), Scan pressed] = Some (es, s)"
    and ok: "list_all (handler_count_ok 2) es"
    by blast
  from r have "es = [PinMode 7 INPUT, PinMode 3 INPUT_PULLUP, PinMode 4 INPUT_PULLUP, PinMode 5 INPUT_PULLUP,
         PinMode 7 OUTPUT, DigitalWrite 7 LOW, DigitalRead 3, DigitalRead 4,
         SwitchClosedCall 1 [1, 2] 2, DigitalRead 5, PinMode 7 INPUT,
         SwitchClosedCall 1 [3, 2] 1]"
    unfolding run by simp
  with ok run show ?thesis by (simp only: simp_thms)
qed

section \<open>The scancodes a pass appends\<close>

text \<open>
  The scancodes appended to the closed buffer are those of the switches the pass latches
  \<^verbatim>\<open>CLOSED\<close>, in scan order, and no switch is reported twice in a pass.
\<close>

lemma events_as_filter:
  assumes "\<And>x. x \<in> set xs \<Longrightarrow> g x = [] \<or> g x = [f x]"
  shows "concat (map g xs) = map f (filter (\<lambda>x. g x \<noteq> []) xs)"
  using assms by (induction xs) auto

lemma concat_map_concat:
  "concat (map f (concat xss)) = concat (map (\<lambda>xs. concat (map f xs)) xss)"
  by (induction xss) simp_all

lemma grid_events_product:
  assumes g: "grid_ok s"
  shows "grid_events ev d v (row_count s) (m_switch_map s)
     = concat (map (\<lambda>(r, c). ev (sample_switch d (v r c) (cell s r c)))
         (List.product [0..<row_count s] [0..<col_count s]))"
proof -
  let ?f = "\<lambda>r c. ev (sample_switch d (v r c) (m_switch_map s ! r ! c))"
  from g have cl: "\<And>r. r < row_count s \<Longrightarrow> length (m_switch_map s ! r) = col_count s"
    by (simp add: grid_ok_def)
  have "grid_events ev d v (row_count s) (m_switch_map s)
      = concat (map (\<lambda>r. concat (map (?f r) [0..<length (m_switch_map s ! r)])) [0..<row_count s])"
    by (simp add: grid_events_def row_events_def)
  also have "\<dots> = concat (map (\<lambda>r. concat (map (?f r) [0..<col_count s])) [0..<row_count s])"
    by (rule arg_cong [where f = concat], rule map_cong) (simp_all add: cl)
  also have "\<dots> = concat (map (\<lambda>(r, c). ?f r c)
         (List.product [0..<row_count s] [0..<col_count s]))"
    by (simp add: product_concat_map concat_map_concat comp_def)
  finally show ?thesis by (simp add: cell_def)
qed

lemma closed_event_cases:
  "closed_event (sample_switch d v sw)
     = (if state sw \<noteq> CLOSED \<and> state (scanned_switch d v sw) = CLOSED then [scancode sw] else [])"
  by (auto simp: closed_event_def scanned_switch_def latch_switch_def)

lemma scancode_inj:
  assumes inv: "scanner_inv s"
  shows "inj_on (\<lambda>(r, c). scancode (cell s r c))
           (set (List.product [0..<row_count s] [0..<col_count s]))"
proof (rule inj_onI)
  let ?R = "row_count s" and ?C = "col_count s"
  fix x y
  assume x: "x \<in> set (List.product [0..<?R] [0..<?C])"
    and y: "y \<in> set (List.product [0..<?R] [0..<?C])"
    and e: "(case x of (r, c) \<Rightarrow> scancode (cell s r c)) = (case y of (r, c) \<Rightarrow> scancode (cell s r c))"
  obtain r c r' c' where xy: "x = (r, c)" "y = (r', c')" by (cases x, cases y)
  with x y have b: "r < ?R" "c < ?C" "r' < ?R" "c' < ?C" by auto
  from inv have RC: "?R * ?C < ScanCodeMax - 1"
    and lay: "\<And>r c. r < ?R \<Longrightarrow> c < ?C \<Longrightarrow> scancode (cell s r c) = of_nat (r * ?C + c + 1)"
    by (simp_all add: scanner_inv_def)
  have un: "unat (scancode (cell s r c)) = r * ?C + c + 1" if "r < ?R" "c < ?C" for r c
  proof -
    have "r * ?C + c < ?R * ?C" using that by (intro position_less)
    with RC have "r * ?C + c + 1 < 65536" by (simp add: ScanCodeMax_def)
    then have "(r * ?C + c + 1) mod 2 ^ LENGTH(16) = r * ?C + c + 1" by simp
    moreover have "unat (scancode (cell s r c)) = (r * ?C + c + 1) mod 2 ^ LENGTH(16)"
      unfolding lay [OF that] by (simp only: unat_of_nat)
    ultimately show ?thesis by (simp only:)
  qed
  from e xy have "unat (scancode (cell s r c)) = unat (scancode (cell s r' c'))" by simp
  with un b have "r * ?C + c = r' * ?C + c'" by simp
  with position_eq [OF b(4) b(2), of r r'] xy show "x = y" by simp
qed

lemma distinct_events:
  assumes inv: "scanner_inv s"
    and evs: "\<And>r c sw. ev (sample_switch d (v r c) sw) = [] \<or> ev (sample_switch d (v r c) sw) = [scancode sw]"
  shows "distinct (grid_events ev d v (row_count s) (m_switch_map s))"
proof -
  let ?xs = "List.product [0..<row_count s] [0..<col_count s]"
  let ?g = "\<lambda>(r, c). ev (sample_switch d (v r c) (cell s r c))"
  let ?f = "\<lambda>(r, c). scancode (cell s r c)"
  from inv have g: "grid_ok s" by (simp add: scanner_inv_def)
  have "concat (map ?g ?xs) = map ?f (filter (\<lambda>x. ?g x \<noteq> []) ?xs)"
    by (rule events_as_filter) (use evs in auto)
  moreover have "distinct (map ?f ?xs)"
    using scancode_inj [OF inv] by (simp add: distinct_map distinct_product)
  ultimately show ?thesis
    by (simp add: grid_events_product [OF g] distinct_map_filter)
qed

lemma pass_closed_events_transitions:
  assumes inv: "scanner_inv s" and sc: "scan digitalRead s = Some (es, s')"
  shows "pass_closed_events digitalRead s = closed_transitions s s'"
proof -
  let ?d = "m_enable_software_debounce s"
  let ?xs = "List.product [0..<row_count s] [0..<col_count s]"
  from inv have g: "grid_ok s" by (simp add: scanner_inv_def)
  from scan_inv [OF inv, of digitalRead] sc
  have cells: "\<And>r c. r < row_count s \<Longrightarrow> c < col_count s \<Longrightarrow>
      cell s' r c = scanned_switch ?d (digitalRead r c) (cell s r c)"
    by auto
  have "pass_closed_events digitalRead s
      = concat (map (\<lambda>(r, c). closed_event (sample_switch ?d (digitalRead r c) (cell s r c))) ?xs)"
    by (simp add: pass_closed_events_def grid_events_product [OF g])
  also have "\<dots> = concat (map (\<lambda>(r, c).
        if state (cell s r c) \<noteq> CLOSED \<and> state (cell s' r c) = CLOSED
        then [scancode (cell s r c)] else []) ?xs)"
    by (rule arg_cong [where f = concat], rule map_cong) (auto simp: closed_event_cases cells)
  also have "\<dots> = map (\<lambda>(r, c). scancode (cell s r c))
        (filter (\<lambda>x. (case x of (r, c) \<Rightarrow>
           if state (cell s r c) \<noteq> CLOSED \<and> state (cell s' r c) = CLOSED
           then [scancode (cell s r c)] else []) \<noteq> []) ?xs)"
    by (rule events_as_filter) auto
  also have "\<dots> = closed_transitions s s'"
    unfolding closed_transitions_def
    by (rule arg_cong [where f = "map (\<lambda>(r, c). scancode (cell s r c))"], rule filter_cong)
      (auto split: if_splits)
  finally show ?thesis .
qed

section \<open>More events than the buffer holds\<close>

lemma final_delivery_Some:
  "final_delivery (Some h) pend = (if pend = [] then [] else [(h, length pend, pend)])"
  by (simp add: final_delivery_def)

lemma overflow_two_calls:
  assumes f: "flow N (Some h) [] ds pend evs" and N: "0 < N" and pl: "length pend < N"
    and l: "length evs = N + 1"
  shows "ds @ final_delivery (Some h) pend = [(h, N, take N evs), (h, 1, drop N evs)]
     \<and> final_delivery (Some h) pend = (if N = 1 then [] else [(h, 1, drop N evs)])"
  using flow_final_two [OF f N pl l] flow_final_end [OF f N pl l]
  by (simp only: final_delivery_Some)

text \<open>
  C3 as the code has it. For the scanner of any sketch, between two calls, and any pin
  readings: the pass runs to its end, so no write of \<^verbatim>\<open>handleSwitchState\<close> falls outside a
  buffer array, and it leaves both counts at 0. The scancodes appended to the closed
  buffer are those of the switches the pass latches \<^verbatim>\<open>CLOSED\<close>, and no scancode is
  appended twice to a buffer. When the pass appends \<open>N + 1\<close> scancodes to a buffer of
  capacity \<open>N\<close> whose handler is registered, that handler is called exactly twice: first
  with the first \<open>N\<close> scancodes, then with the last one, in scan order. The second call
  comes from the flush at the end of the pass when \<open>N > 1\<close>; when \<open>N = 1\<close> both calls are
  mid-pass flushes and the flush at the end of the pass calls nothing.
\<close>

theorem scan_overflow_safe:
  assumes run: "run_scanner R C N row_pins column_pins pullups debounce calls = Some (es0, s)"
  shows "\<exists>es_loop t es_end s'.
       for_loop [0..<row_count s] (scan_row digitalRead) s = Some (es_loop, t)
     \<and> scan digitalRead s = Some (es_loop @ es_end, s')
     \<and> m_scancode_event_buffer_closed_len s' = 0 \<and> m_scancode_event_buffer_opened_len s' = 0
     \<and> pass_closed_events digitalRead s = closed_transitions s s'
     \<and> distinct (pass_closed_events digitalRead s)
     \<and> distinct (pass_opened_events digitalRead s)
     \<and> (\<forall>h. m_switchhandler_closed s = Some h
              \<and> length (pass_closed_events digitalRead s) = N + 1 \<longrightarrow>
            closed_deliveries (es_loop @ es_end)
              = [(h, N, take N (pass_closed_events digitalRead s)),
                 (h, 1, drop N (pass_closed_events digitalRead s))]
            \<and> closed_deliveries es_end
              = (if N = 1 then [] else [(h, 1, drop N (pass_closed_events digitalRead s))]))
     \<and> (\<forall>h. m_switchhandler_open s = Some h
              \<and> length (pass_opened_events digitalRead s) = N + 1 \<longrightarrow>
            opened_deliveries (es_loop @ es_end)
              = [(h, N, take N (pass_opened_events digitalRead s)),
                 (h, 1, drop N (pass_opened_events digitalRead s))]
            \<and> opened_deliveries es_end
              = (if N = 1 then [] else [(h, 1, drop N (pass_opened_events digitalRead s))]))"
proof -
  from run_scanner_inv [OF run] have inv: "scanner_inv s" and N: "event_buffer_size s = N"
    by (simp_all add: dims_def)
  from inv have idle: "bufs_idle s" and g: "grid_ok s" by (simp_all add: scanner_inv_def)
  from idle N have N0: "0 < N" by (simp add: bufs_idle_def)
  from scan_spec_split [OF idle g, of digitalRead] obtain es_loop t es_end s'
    where l: "for_loop [0..<row_count s] (scan_row digitalRead) s = Some (es_loop, t)"
      and sc: "scan digitalRead s = Some (es_loop @ es_end, s')"
      and idle': "bufs_idle s'"
      and ce: "closed_deliveries es_end = final_delivery (m_switchhandler_closed s) (pending_closed t)"
      and pc: "length (pending_closed t) < N"
      and fc: "flow N (m_switchhandler_closed s) [] (closed_deliveries es_loop) (pending_closed t)
                 (pass_closed_events digitalRead s)"
      and oe: "opened_deliveries es_end = final_delivery (m_switchhandler_open s) (pending_opened t)"
      and po: "length (pending_opened t) < N"
      and fo: "flow N (m_switchhandler_open s) [] (opened_deliveries es_loop) (pending_opened t)
                 (pass_opened_events digitalRead s)"
    unfolding N pass_closed_events_def pass_opened_events_def by blast
  from idle' have lens: "m_scancode_event_buffer_closed_len s' = 0"
    "m_scancode_event_buffer_opened_len s' = 0"
    by (simp_all add: bufs_idle_def)
  have tr: "pass_closed_events digitalRead s = closed_transitions s s'"
    using inv sc by (rule pass_closed_events_transitions)
  have dc: "distinct (pass_closed_events digitalRead s)"
    unfolding pass_closed_events_def
    by (rule distinct_events [OF inv]) (simp add: closed_event_def)
  have do: "distinct (pass_opened_events digitalRead s)"
    unfolding pass_opened_events_def
    by (rule distinct_events [OF inv]) (simp add: opened_event_def)
  have closed: "closed_deliveries (es_loop @ es_end)
              = [(h, N, take N (pass_closed_events digitalRead s)),
                 (h, 1, drop N (pass_closed_events digitalRead s))]
            \<and> closed_deliveries es_end
              = (if N = 1 then [] else [(h, 1, drop N (pass_closed_events digitalRead s))])"
    if "m_switchhandler_closed s = Some h \<and> length (pass_closed_events digitalRead s) = N + 1" for h
  proof -
    from that fc have f: "flow N (Some h) [] (closed_deliveries es_loop) (pending_closed t)
                 (pass_closed_events digitalRead s)" by simp
    from that have len: "length (pass_closed_events digitalRead s) = N + 1" by simp
    from that ce have e: "closed_deliveries es_end = final_delivery (Some h) (pending_closed t)"
      by simp
    have a: "closed_deliveries (es_loop @ es_end)
        = closed_deliveries es_loop @ final_delivery (Some h) (pending_closed t)"
      by (simp only: closed_deliveries_append e)
    from overflow_two_calls [OF f N0 pc len] show ?thesis
      unfolding a e by (rule conj_forward)
  qed
  have opened: "opened_deliveries (es_loop @ es_end)
              = [(h, N, take N (pass_opened_events digitalRead s)),
                 (h, 1, drop N (pass_opened_events digitalRead s))]
            \<and> opened_deliveries es_end
              = (if N = 1 then [] else [(h, 1, drop N (pass_opened_events digitalRead s))])"
    if "m_switchhandler_open s = Some h \<and> length (pass_opened_events digitalRead s) = N + 1" for h
  proof -
    from that fo have f: "flow N (Some h) [] (opened_deliveries es_loop) (pending_opened t)
                 (pass_opened_events digitalRead s)" by simp
    from that have len: "length (pass_opened_events digitalRead s) = N + 1" by simp
    from that oe have e: "opened_deliveries es_end = final_delivery (Some h) (pending_opened t)"
      by simp
    have a: "opened_deliveries (es_loop @ es_end)
        = opened_deliveries es_loop @ final_delivery (Some h) (pending_opened t)"
      by (simp only: opened_deliveries_append e)
    from overflow_two_calls [OF f N0 po len] show ?thesis
      unfolding a e by (rule conj_forward)
  qed
  from l sc lens tr dc do closed opened show ?thesis by blast
qed

theorem scan_overflow_safe_witness:
  "run_scanner 1 3 2 [7] [3, 4, 5] True False [Setup (Some 1) (Some 2)] \<noteq> None
   \<and> m_switchhandler_closed
        (snd (the (run_scanner 1 3 2 [7] [3, 4, 5] True False [Setup (Some 1) (Some 2)]))) = Some 1
   \<and> length (pass_closed_events pressed
        (snd (the (run_scanner 1 3 2 [7] [3, 4, 5] True False [Setup (Some 1) (Some 2)])))) = 2 + 1
   \<and> closed_deliveries (fst (the (scan pressed
        (snd (the (run_scanner 1 3 2 [7] [3, 4, 5] True False [Setup (Some 1) (Some 2)]))))))
       = [(1, 2, [1, 2]), (1, 1, [3])]"
proof -
  define s where "s = \<lparr>row_count = 1, col_count = 3, event_buffer_size = 2,
      m_switch_map = [[\<lparr>scancode = 1, state = UNKNOWN, sample_buffer = 0\<rparr>,
                       \<lparr>scancode = 2, state = UNKNOWN, sample_buffer = 0\<rparr>,
                       \<lparr>scancode = 3, state = UNKNOWN, sample_buffer = 0\<rparr>]],
      m_row_pins = [7], m_col_pins = [3, 4, 5], m_switchhandler_closed = Some 1,
      m_switchhandler_open = Some 2, m_column_input_type = INPUT_PULLUP,
      m_enable_software_debounce = False,
      m_scancode_event_buffer_opened = [0, 0], m_scancode_event_buffer_opened_len = 0,
      m_scancode_event_buffer_closed = [0, 0], m_scancode_event_buffer_closed_len = 0\<rparr>"
  have run: "run_scanner 1 3 2 [7] [3, 4, 5] True False [Setup (Some 1) (Some 2)]
      = Some ([PinMode 7 INPUT, PinMode 3 INPUT_PULLUP, PinMode 4 INPUT_PULLUP,
               PinMode 5 INPUT_PULLUP], s)"
    unfolding s_def by code_simp
  have e: "snd (the (run_scanner 1 3 2 [7] [3, 4, 5] True False [Setup (Some 1) (Some 2)])) = s"
    by (simp only: run option.sel snd_conv)
  have h: "m_switchhandler_closed s = Some 1" by (simp add: s_def)
  have evs: "pass_closed_events pressed s = [1, 2, 3]"
    unfolding s_def by code_simp
  from scan_overflow_safe [OF run, of pressed] obtain es_loop es_end s'
    where sc: "scan pressed s = Some (es_loop @ es_end, s')"
      and two: "\<forall>h. m_switchhandler_closed s = Some h
              \<and> length (pass_closed_events pressed s) = 2 + 1 \<longrightarrow>
            closed_deliveries (es_loop @ es_end)
              = [(h, 2, take 2 (pass_closed_events pressed s)),
                 (h, 1, drop 2 (pass_closed_events pressed s))]
            \<and> closed_deliveries es_end
              = (if (2::nat) = 1 then [] else [(h, 1, drop 2 (pass_closed_events pressed s))])"
    by blast
  from two h evs have "closed_deliveries (es_loop @ es_end) = [(1, 2, [1, 2]), (1, 1, [3])]"
    by (simp del: closed_deliveries_append)
  with sc h evs show ?thesis
    unfolding e run by simp
qed

theorem single_slot_flush_counterexample:
  "run_scanner 1 2 1 [7] [3, 4] True False [Setup (Some 1) (Some 2)]
     = Some ([PinMode 7 INPUT, PinMode 3 INPUT_PULLUP, PinMode 4 INPUT_PULLUP],
         \<lparr>row_count = 1, col_count = 2, event_buffer_size = 1,
          m_switch_map = [[\<lparr>scancode = 1, state = UNKNOWN, sample_buffer = 0\<rparr>,
                           \<lparr>scancode = 2, state = UNKNOWN, sample_buffer = 0\<rparr>]],
          m_row_pins = [7], m_col_pins = [3, 4], m_switchhandler_closed = Some 1,
          m_switchhandler_open = Some 2, m_column_input_type = INPUT_PULLUP,
          m_enable_software_debounce = False,
          m_scancode_event_buffer_opened = [0], m_scancode_event_buffer_opened_len = 0,
          m_scancode_event_buffer_closed = [0], m_scancode_event_buffer_closed_len = 0\<rparr>)
   \<and> for_loop [0..<1] (scan_row pressed)
        \<lparr>row_count = 1, col_count = 2, event_buffer_size = 1,
         m_switch_map = [[\<lparr>scancode = 1, state = UNKNOWN, sample_buffer = 0\<rparr>,
                          \<lparr>scancode = 2, state = UNKNOWN, sample_buffer = 0\<rparr>]],
         m_row_pins = [7], m_col_pins = [3, 4], m_switchhandler_closed = Some 1,
         m_switchhandler_open = Some 2, m_column_input_type = INPUT_PULLUP,
         m_enable_software_debounce = False,
         m_scancode_event_buffer_opened = [0], m_scancode_event_buffer_opened_len = 0,
         m_scancode_event_buffer_closed = [0], m_scancode_event_buffer_closed_len = 0\<rparr>
     = Some ([PinMode 7 OUTPUT, DigitalWrite 7 LOW, DigitalRead 3, SwitchClosedCall 1 [1] 1,
              DigitalRead 4, SwitchClosedCall 1 [2] 1, PinMode 7 INPUT],
         \<lparr>row_count = 1, col_count = 2, event_buffer_size = 1,
          m_switch_map = [[\<lparr>scancode = 1, state = CLOSED, sample_buffer = 31\<rparr>,
                           \<lparr>scancode = 2, state = CLOSED, sample_buffer = 31\<rparr>]],
          m_row_pins = [7], m_col_pins = [3, 4], m_switchhandler_closed = Some 1,
          m_switchhandler_open = Some 2, m_column_input_type = INPUT_PULLUP,
          m_enable_software_debounce = False,
          m_scancode_event_buffer_opened = [0], m_scancode_event_buffer_opened_len = 0,
          m_scancode_event_buffer_closed = [2], m_scancode_event_buffer_closed_len = 0\<rparr>)
   \<and> flush_closed_events
        \<lparr>row_count = 1, col_count = 2, event_buffer_size = 1,
         m_switch_map = [[\<lparr>scancode = 1, state = CLOSED, sample_buffer = 31\<rparr>,
                          \<lparr>scancode = 2, state = CLOSED, sample_buffer = 31\<rparr>]],
         m_row_pins = [7], m_col_pins = [3, 4], m_switchhandler_closed = Some 1,
         m_switchhandler_open = Some 2, m_column_input_type = INPUT_PULLUP,
         m_enable_software_debounce = False,
         m_scancode_event_buffer_opened = [0], m_scancode_event_buffer_opened_len = 0,
         m_scancode_event_buffer_closed = [2], m_scancode_event_buffer_closed_len = 0\<rparr>
     = ([],
        \<lparr>row_count = 1, col_count = 2, event_buffer_size = 1,
         m_switch_map = [[\<lparr>scancode = 1, state = CLOSED, sample_buffer = 31\<rparr>,
                          \<lparr>scancode = 2, state = CLOSED, sample_buffer = 31\<rparr>]],
         m_row_pins = [7], m_col_pins = [3, 4], m_switchhandler_closed = Some 1,
         m_switchhandler_open = Some 2, m_column_input_type = INPUT_PULLUP,
         m_enable_software_debounce = False,
         m_scancode_event_buffer_opened = [0], m_scancode_event_buffer_opened_len = 0,
         m_scancode_event_buffer_closed = [2], m_scancode_event_buffer_closed_len = 0\<rparr>)"
  by code_simp

section \<open>Open events\<close>

text \<open>
  C1 on the code. The switch of a one-switch grid is held down for ten passes: it is
  latched \<^verbatim>\<open>CLOSED\<close> and reported to the closed handler (the open handler has been called
  once, at power-up). Then it is released for nine passes, until its sample window is all
  zeros: it is latched \<^verbatim>\<open>OPEN\<close> and \<^verbatim>\<open>isSwitchClosed\<close> answers false, but the handler calls
  of the whole execution are still the same two. No open event is delivered for the
  release.
\<close>

theorem release_not_reported:
  "outcome (run_scanner 1 1 10 [7] [3] True True hold_sketch)
     = Some ([(1, 1, [1])], [(2, 1, [1])],
             [[\<lparr>scancode = 1, state = CLOSED, sample_buffer = 31\<rparr>]], True)
   \<and> outcome (run_scanner 1 1 10 [7] [3] True True (hold_sketch @ release_passes))
     = Some ([(1, 1, [1])], [(2, 1, [1])],
             [[\<lparr>scancode = 1, state = OPEN, sample_buffer = 0\<rparr>]], False)"
  by code_simp

text \<open>
  C2 on the code. A freshly constructed one-switch scanner whose first pass reads the
  switch released: the switch goes from \<^verbatim>\<open>UNKNOWN\<close> to \<^verbatim>\<open>OPEN\<close>, its scancode is appended
  to the opened buffer, and the open handler is called with it at the end of the pass.
\<close>

theorem power_up_open_reported:
  "run_scanner 1 1 10 [7] [3] True True [Setup (Some 1) (Some 2), Scan released]
     = Some ([PinMode 7 INPUT, PinMode 3 INPUT_PULLUP,
              PinMode 7 OUTPUT, DigitalWrite 7 LOW, DigitalRead 3, PinMode 7 INPUT,
              SwitchOpenCall 2 [1, 0, 0, 0, 0, 0, 0, 0, 0, 0] 1],
         \<lparr>row_count = 1, col_count = 1, event_buffer_size = 10,
          m_switch_map = [[\<lparr>scancode = 1, state = OPEN, sample_buffer = 0\<rparr>]],
          m_row_pins = [7], m_col_pins = [3], m_switchhandler_closed = Some 1,
          m_switchhandler_open = Some 2, m_column_input_type = INPUT_PULLUP,
          m_enable_software_debounce = True,
          m_scancode_event_buffer_opened = [1, 0, 0, 0, 0, 0, 0, 0, 0, 0],
          m_scancode_event_buffer_opened_len = 0,
          m_scancode_event_buffer_closed = [0, 0, 0, 0, 0, 0, 0, 0, 0, 0],
          m_scancode_event_buffer_closed_len = 0\<rparr>)"
  by code_simp

end
